theory Spec2Isabelle
  imports Main "HOL-Library.Monad_Syntax" "HOL-Library.Tree"
begin

section \<open>The node store\<close>

text \<open>
  A \<^verbatim>\<open>node<T>*\<close> is an address; address \<open>0\<close> is \<^verbatim>\<open>nullptr\<close>. The store maps every
  address to the five fields of \<^verbatim>\<open>struct node\<close> (include/tree/node.hpp); the field
  \<^verbatim>\<open>left_\<close> is written \<open>left_f\<close>, and so on for the other four. A statement
  \<^verbatim>\<open>p->left_ = x\<close> is the store update \<open>set_left h p x\<close>. Functions that dereference
  a pointer return \<open>None\<close> when that pointer is null, and a loop that does not end is
  \<open>None\<close> as well, so \<open>Some\<close> means: the C++ returns, having dereferenced only non-null
  pointers.

  \<^verbatim>\<open>std::size_t\<close> is modelled by \<open>nat\<close>: a subtree size counts allocated nodes, and no
  address space holds enough nodes for \<^verbatim>\<open>3 * (size + 1)\<close> to wrap around. The one
  field that could wrap, the sentinel's \<^verbatim>\<open>size_\<close> (decremented by \<^verbatim>\<open>erase_self\<close> below the
  sentinel), is never read by any function.
\<close>

type_synonym addr = nat

record 'a node =
  value_f :: 'a
  size_f :: nat
  left_f :: addr
  right_f :: addr
  parent_f :: addr

type_synonym 'a heap = "addr \<Rightarrow> 'a node"

definition set_size :: "'a heap \<Rightarrow> addr \<Rightarrow> nat \<Rightarrow> 'a heap" where
  "set_size h p x = h(p := (h p)\<lparr>size_f := x\<rparr>)"

definition set_left :: "'a heap \<Rightarrow> addr \<Rightarrow> addr \<Rightarrow> 'a heap" where
  "set_left h p x = h(p := (h p)\<lparr>left_f := x\<rparr>)"

definition set_right :: "'a heap \<Rightarrow> addr \<Rightarrow> addr \<Rightarrow> 'a heap" where
  "set_right h p x = h(p := (h p)\<lparr>right_f := x\<rparr>)"

definition set_parent :: "'a heap \<Rightarrow> addr \<Rightarrow> addr \<Rightarrow> 'a heap" where
  "set_parent h p x = h(p := (h p)\<lparr>parent_f := x\<rparr>)"

text \<open>\<^verbatim>\<open>new node<T>(value)\<close>: the singleton constructor, run at the address \<open>r\<close> that
  the allocator returned.\<close>

definition new_node :: "'a heap \<Rightarrow> addr \<Rightarrow> 'a \<Rightarrow> 'a heap" where
  "new_node h r v = h(r := \<lparr>value_f = v, size_f = 1, left_f = 0, right_f = 0, parent_f = 0\<rparr>)"

section \<open>Node layer (include/tree/node.hpp)\<close>

text \<open>\<^verbatim>\<open>size(const node<T>* s)\<close>\<close>

definition size_node :: "'a heap \<Rightarrow> addr \<Rightarrow> nat" where
  "size_node h s = (if s \<noteq> 0 then size_f (h s) else 0)"

definition is_sentinel :: "'a heap \<Rightarrow> addr \<Rightarrow> bool" where
  "is_sentinel h p = (parent_f (h p) = p)"

text \<open>The loops \<^verbatim>\<open>while (p->left_) { p = p->left_; }\<close> and its mirror image.\<close>

partial_function (option) descend_left :: "'a heap \<Rightarrow> addr \<Rightarrow> addr option" where
  "descend_left h p =
     (if p = 0 then None
      else if left_f (h p) \<noteq> 0 then descend_left h (left_f (h p))
      else Some p)"

declare descend_left.simps [code]

partial_function (option) descend_right :: "'a heap \<Rightarrow> addr \<Rightarrow> addr option" where
  "descend_right h p =
     (if p = 0 then None
      else if right_f (h p) \<noteq> 0 then descend_right h (right_f (h p))
      else Some p)"

declare descend_right.simps [code]

text \<open>The loop
  \<^verbatim>\<open>while (!is_sentinel(p->parent_) && p == p->parent_->right_) { p = p->parent_; }\<close>
  and its mirror image.\<close>

partial_function (option) ascend_from_right :: "'a heap \<Rightarrow> addr \<Rightarrow> addr option" where
  "ascend_from_right h p =
     (if p = 0 \<or> parent_f (h p) = 0 then None
      else if \<not> is_sentinel h (parent_f (h p)) \<and> p = right_f (h (parent_f (h p)))
        then ascend_from_right h (parent_f (h p))
      else Some p)"

declare ascend_from_right.simps [code]

partial_function (option) ascend_from_left :: "'a heap \<Rightarrow> addr \<Rightarrow> addr option" where
  "ascend_from_left h p =
     (if p = 0 \<or> parent_f (h p) = 0 then None
      else if \<not> is_sentinel h (parent_f (h p)) \<and> p = left_f (h (parent_f (h p)))
        then ascend_from_left h (parent_f (h p))
      else Some p)"

declare ascend_from_left.simps [code]

definition inorder_successor :: "'a heap \<Rightarrow> addr \<Rightarrow> addr option" where
  "inorder_successor h p =
     (if p = 0 then None
      else if right_f (h p) \<noteq> 0 then descend_left h (right_f (h p))
      else do { q \<leftarrow> ascend_from_right h p; Some (parent_f (h q)) })"

definition inorder_predecessor :: "'a heap \<Rightarrow> addr \<Rightarrow> addr option" where
  "inorder_predecessor h p =
     (if p = 0 then None
      else if left_f (h p) \<noteq> 0 then descend_right h (left_f (h p))
      else do { q \<leftarrow> ascend_from_left h p; Some (parent_f (h q)) })"

text \<open>\<^verbatim>\<open>owner(p)\<close> returns a reference to the child field of \<^verbatim>\<open>p->parent_\<close> that holds
  \<open>p\<close>: a slot, which can be read and assigned.\<close>

datatype slot = LeftOf addr | RightOf addr

definition owner :: "'a heap \<Rightarrow> addr \<Rightarrow> slot" where
  "owner h p =
     (if left_f (h (parent_f (h p))) = p then LeftOf (parent_f (h p)) else RightOf (parent_f (h p)))"

fun slot_get :: "'a heap \<Rightarrow> slot \<Rightarrow> addr" where
  "slot_get h (LeftOf a) = left_f (h a)"
| "slot_get h (RightOf a) = right_f (h a)"

fun slot_set :: "'a heap \<Rightarrow> slot \<Rightarrow> addr \<Rightarrow> 'a heap" where
  "slot_set h (LeftOf a) x = set_left h a x"
| "slot_set h (RightOf a) x = set_right h a x"

definition recalculate_size :: "'a heap \<Rightarrow> addr \<Rightarrow> 'a heap" where
  "recalculate_size h p =
     set_size h p (size_node h (left_f (h p)) + size_node h (right_f (h p)) + 1)"

definition is_balanced :: "'a heap \<Rightarrow> addr \<Rightarrow> addr \<Rightarrow> bool" where
  "is_balanced h l r = (3 * (size_node h l + 1) \<ge> size_node h r + 1)"

definition is_single :: "'a heap \<Rightarrow> addr \<Rightarrow> addr \<Rightarrow> bool" where
  "is_single h l r = (size_node h l + 1 \<le> 2 * (size_node h r + 1))"

text \<open>\<^verbatim>\<open>balance_left\<close> (a left rotation at \<open>a\<close> when its right subtree is too heavy) returns
  the new store and the root of the subtree.\<close>

definition balance_left :: "'a heap \<Rightarrow> addr \<Rightarrow> ('a heap \<times> addr) option" where
  "balance_left h a =
     (if a = 0 \<or> parent_f (h a) = 0 then None
      else if \<not> is_balanced h (left_f (h a)) (right_f (h a)) then
        (if right_f (h a) = 0 then None
         else if is_single h (left_f (h (right_f (h a)))) (right_f (h (right_f (h a)))) then
           (let b = right_f (h a);
                c = left_f (h b);
                h1 = slot_set h (owner h a) b;
                h2 = set_parent h1 b (parent_f (h1 a));
                h3 = set_right h2 a c;
                h4 = (if c \<noteq> 0 then set_parent h3 c a else h3);
                h5 = set_left h4 b a;
                h6 = set_parent h5 a b;
                h7 = recalculate_size h6 a;
                h8 = recalculate_size h7 b
            in Some (h8, b))
         else if left_f (h (right_f (h a))) = 0 then None
         else
           (let b = right_f (h a);
                c = left_f (h b);
                d = left_f (h c);
                e = right_f (h c);
                h1 = slot_set h (owner h a) c;
                h2 = set_parent h1 c (parent_f (h1 a));
                h3 = set_right h2 a d;
                h4 = (if d \<noteq> 0 then set_parent h3 d a else h3);
                h5 = set_left h4 b e;
                h6 = (if e \<noteq> 0 then set_parent h5 e b else h5);
                h7 = set_left h6 c a;
                h8 = set_parent h7 a c;
                h9 = set_right h8 c b;
                h10 = set_parent h9 b c;
                h11 = recalculate_size h10 a;
                h12 = recalculate_size h11 b;
                h13 = recalculate_size h12 c
            in Some (h13, c)))
      else Some (h, a))"

definition balance_right :: "'a heap \<Rightarrow> addr \<Rightarrow> ('a heap \<times> addr) option" where
  "balance_right h a =
     (if a = 0 \<or> parent_f (h a) = 0 then None
      else if \<not> is_balanced h (right_f (h a)) (left_f (h a)) then
        (if left_f (h a) = 0 then None
         else if is_single h (right_f (h (left_f (h a)))) (left_f (h (left_f (h a)))) then
           (let b = left_f (h a);
                c = right_f (h b);
                h1 = slot_set h (owner h a) b;
                h2 = set_parent h1 b (parent_f (h1 a));
                h3 = set_left h2 a c;
                h4 = (if c \<noteq> 0 then set_parent h3 c a else h3);
                h5 = set_right h4 b a;
                h6 = set_parent h5 a b;
                h7 = recalculate_size h6 a;
                h8 = recalculate_size h7 b
            in Some (h8, b))
         else if right_f (h (left_f (h a))) = 0 then None
         else
           (let b = left_f (h a);
                c = right_f (h b);
                d = right_f (h c);
                e = left_f (h c);
                h1 = slot_set h (owner h a) c;
                h2 = set_parent h1 c (parent_f (h1 a));
                h3 = set_left h2 a d;
                h4 = (if d \<noteq> 0 then set_parent h3 d a else h3);
                h5 = set_right h4 b e;
                h6 = (if e \<noteq> 0 then set_parent h5 e b else h5);
                h7 = set_right h6 c a;
                h8 = set_parent h7 a c;
                h9 = set_left h8 c b;
                h10 = set_parent h9 b c;
                h11 = recalculate_size h10 a;
                h12 = recalculate_size h11 b;
                h13 = recalculate_size h12 c
            in Some (h13, c)))
      else Some (h, a))"

text \<open>\<^verbatim>\<open>p->size_ += increment\<close> with an \<^verbatim>\<open>int\<close> increment of \<open>+1\<close> or \<open>-1\<close>.\<close>

definition add_size :: "nat \<Rightarrow> int \<Rightarrow> nat" where
  "add_size n increment = nat (int n + increment)"

partial_function (option) balance_above :: "'a heap \<Rightarrow> addr \<Rightarrow> int \<Rightarrow> 'a heap option" where
  "balance_above h p increment =
     (if p = 0 \<or> parent_f (h p) = 0 then None
      else if is_sentinel h (parent_f (h p)) then Some h
      else
        (let is_right = (p = right_f (h (parent_f (h p))));
             p1 = parent_f (h p);
             h1 = set_size h p1 (add_size (size_f (h p1)) increment)
         in do {
              (h2, p2) \<leftarrow> (if is_right = (increment > 0) then balance_left h1 p1
                            else balance_right h1 p1);
              balance_above h2 p2 increment
            }))"

declare balance_above.simps [code]

text \<open>\<^verbatim>\<open>insert_before_self\<close>; \<open>r\<close> is the address returned by \<^verbatim>\<open>new\<close>.\<close>

definition insert_before_self :: "'a heap \<Rightarrow> addr \<Rightarrow> 'a \<Rightarrow> addr \<Rightarrow> ('a heap \<times> addr) option" where
  "insert_before_self h self v r =
     (if self = 0 \<or> r = 0 then None
      else
        (let h0 = new_node h r v in
         do {
           h1 \<leftarrow> (if left_f (h0 self) \<noteq> 0 then
                   do {
                     p \<leftarrow> descend_right h0 (left_f (h0 self));
                     Some (set_parent (set_right h0 p r) r p)
                   }
                 else Some (set_parent (set_left h0 self r) r self));
           h2 \<leftarrow> balance_above h1 r 1;
           Some (h2, r)
         }))"

definition replace_self :: "'a heap \<Rightarrow> addr \<Rightarrow> addr \<Rightarrow> 'a heap" where
  "replace_self h self p =
     (let h1 = slot_set h (owner h self) p
      in if p \<noteq> 0 then set_parent h1 p (parent_f (h1 self)) else h1)"

text \<open>\<^verbatim>\<open>erase_self\<close>. The final \<^verbatim>\<open>delete this\<close> returns the node's memory to the allocator
  and leaves the store of the remaining nodes as it is.\<close>

definition erase_self :: "'a heap \<Rightarrow> addr \<Rightarrow> 'a heap option" where
  "erase_self h self =
     (if self = 0 \<or> parent_f (h self) = 0 then None
      else if left_f (h self) = 0 \<or> right_f (h self) = 0 then
        (let h1 = set_size h (parent_f (h self)) (size_f (h (parent_f (h self))) - 1);
             p = (if left_f (h1 self) = 0 then right_f (h1 self) else left_f (h1 self));
             h2 = (if p \<noteq> 0 then set_parent h1 p (parent_f (h1 self)) else h1)
         in if self = left_f (h2 (parent_f (h2 self))) then
              (let h3 = set_left h2 (parent_f (h2 self)) p
               in if \<not> is_sentinel h3 (parent_f (h3 self)) then
                    do {
                      (h4, p') \<leftarrow> balance_left h3 (parent_f (h3 self));
                      balance_above h4 p' (- 1)
                    }
                  else Some h3)
            else
              (let h3 = set_right h2 (parent_f (h2 self)) p
               in do {
                    (h4, p') \<leftarrow> balance_right h3 (parent_f (h3 self));
                    balance_above h4 p' (- 1)
                  }))
      else
        do {
          p \<leftarrow> inorder_successor h self;
          if p = 0 \<or> parent_f (h p) = 0 then None
          else if p \<noteq> right_f (h self) then
            (let q = parent_f (h p);
                 h1 = set_left h q (right_f (h p));
                 h2 = (if right_f (h1 p) \<noteq> 0 then set_parent h1 (right_f (h1 p)) q else h1);
                 h3 = set_right h2 p (right_f (h2 self));
                 h4 = set_parent h3 (right_f (h3 self)) p;
                 h5 = set_left h4 p (left_f (h4 self));
                 h6 = set_parent h5 (left_f (h5 self)) p;
                 h7 = replace_self h6 self p;
                 h8 = set_size h7 p (size_f (h7 self));
                 h9 = set_size h8 q (size_f (h8 q) - 1)
             in do {
                  (h10, q') \<leftarrow> balance_left h9 q;
                  balance_above h10 q' (- 1)
                })
          else
            (let h1 = replace_self h self p;
                 h2 = set_left h1 p (left_f (h1 self));
                 h3 = set_parent h2 (left_f (h2 self)) p;
                 h4 = set_size h3 p (size_f (h3 self) - 1)
             in do {
                  (h5, p') \<leftarrow> balance_right h4 p;
                  balance_above h5 p' (- 1)
                })
        })"

text \<open>\<^verbatim>\<open>exchange_nodes\<close>: \<^verbatim>\<open>std::swap\<close> of two fields or two slots reads both and writes
  both.\<close>

definition exchange_nodes :: "'a heap \<Rightarrow> addr \<Rightarrow> addr \<Rightarrow> 'a heap option" where
  "exchange_nodes h p0 q0 =
     (if p0 = 0 \<or> q0 = 0 \<or> parent_f (h p0) = 0 \<or> parent_f (h q0) = 0 then None
      else
        (let h0 = set_size (set_size h p0 (size_f (h q0))) q0 (size_f (h p0));
             (p, q) = (if parent_f (h0 p0) = q0 then (q0, p0) else (p0, q0))
         in if parent_f (h0 q) = p then
              (let h1 = slot_set h0 (owner h0 p) q;
                   h2 = set_parent h1 q (parent_f (h1 p));
                   h3 = set_parent h2 p q
               in if q = left_f (h3 p) then
                    (let h4 = set_left h3 p (left_f (h3 q));
                         h5 = set_left h4 q p;
                         h6 = set_right (set_right h5 p (right_f (h5 q))) q (right_f (h5 p));
                         h7 = (if left_f (h6 p) \<noteq> 0 then set_parent h6 (left_f (h6 p)) p else h6);
                         h8 = (if right_f (h7 p) \<noteq> 0 then set_parent h7 (right_f (h7 p)) p else h7);
                         h9 = (if right_f (h8 q) \<noteq> 0 then set_parent h8 (right_f (h8 q)) q else h8)
                     in Some h9)
                  else
                    (let h4 = set_right h3 p (right_f (h3 q));
                         h5 = set_right h4 q p;
                         h6 = set_left (set_left h5 p (left_f (h5 q))) q (left_f (h5 p));
                         h7 = (if left_f (h6 p) \<noteq> 0 then set_parent h6 (left_f (h6 p)) p else h6);
                         h8 = (if right_f (h7 p) \<noteq> 0 then set_parent h7 (right_f (h7 p)) p else h7);
                         h9 = (if left_f (h8 q) \<noteq> 0 then set_parent h8 (left_f (h8 q)) q else h8)
                     in Some h9))
            else
              (let op = owner h0 p;
                   oq = owner h0 q;
                   h1 = slot_set (slot_set h0 op (slot_get h0 oq)) oq (slot_get h0 op);
                   h2 = set_parent (set_parent h1 p (parent_f (h1 q))) q (parent_f (h1 p));
                   h3 = set_left (set_left h2 p (left_f (h2 q))) q (left_f (h2 p));
                   h4 = set_right (set_right h3 p (right_f (h3 q))) q (right_f (h3 p));
                   h5 = (if left_f (h4 p) \<noteq> 0 then set_parent h4 (left_f (h4 p)) p else h4);
                   h6 = (if right_f (h5 p) \<noteq> 0 then set_parent h5 (right_f (h5 p)) p else h5);
                   h7 = (if left_f (h6 q) \<noteq> 0 then set_parent h6 (left_f (h6 q)) q else h6);
                   h8 = (if right_f (h7 q) \<noteq> 0 then set_parent h7 (right_f (h7 q)) q else h7)
               in Some h8)))"

text \<open>The search loops. A comparator is a callable from a stored value to a three-way
  sign; \<open>None\<close> is a comparator that does not return a value (it throws).\<close>

type_synonym 'a comparator = "'a \<Rightarrow> int option"

partial_function (option) lower_bound_node :: "'a heap \<Rightarrow> addr \<Rightarrow> 'a comparator \<Rightarrow> addr option" where
  "lower_bound_node h p cmp =
     (if p = 0 then None
      else do {
        c \<leftarrow> cmp (value_f (h p));
        if c < 0 then
          (if right_f (h p) \<noteq> 0 then lower_bound_node h (right_f (h p)) cmp
           else inorder_successor h p)
        else
          (if left_f (h p) \<noteq> 0 then lower_bound_node h (left_f (h p)) cmp
           else Some p)
      })"

declare lower_bound_node.simps [code]

partial_function (option) upper_bound_node :: "'a heap \<Rightarrow> addr \<Rightarrow> 'a comparator \<Rightarrow> addr option" where
  "upper_bound_node h p cmp =
     (if p = 0 then None
      else do {
        c \<leftarrow> cmp (value_f (h p));
        if c \<le> 0 then
          (if right_f (h p) \<noteq> 0 then upper_bound_node h (right_f (h p)) cmp
           else inorder_successor h p)
        else
          (if left_f (h p) \<noteq> 0 then upper_bound_node h (left_f (h p)) cmp
           else Some p)
      })"

declare upper_bound_node.simps [code]

section \<open>Tree layer (include/wb/tree.hpp)\<close>

text \<open>A \<^verbatim>\<open>tree<T>\<close> object is its only member, the sentinel node; the tree is named by the
  sentinel's address \<open>s\<close>, and an iterator is the address of a node.\<close>

definition tree_init :: "'a heap \<Rightarrow> addr \<Rightarrow> 'a heap" where
  "tree_init h s = set_parent (set_right (set_left h s 0) s 0) s s"

definition tree_begin :: "'a heap \<Rightarrow> addr \<Rightarrow> addr option" where
  "tree_begin h s = descend_left h s"

definition tree_end :: "addr \<Rightarrow> addr" where
  "tree_end s = s"

definition tree_empty :: "'a heap \<Rightarrow> addr \<Rightarrow> bool" where
  "tree_empty h s = (left_f (h s) = 0)"

definition tree_size :: "'a heap \<Rightarrow> addr \<Rightarrow> nat" where
  "tree_size h s = (if tree_empty h s then 0 else size_f (h (left_f (h s))))"

definition tree_insert :: "'a heap \<Rightarrow> addr \<Rightarrow> 'a \<Rightarrow> addr \<Rightarrow> ('a heap \<times> addr) option" where
  "tree_insert h position v r = insert_before_self h position v r"

definition tree_erase :: "'a heap \<Rightarrow> addr \<Rightarrow> ('a heap \<times> addr) option" where
  "tree_erase h position =
     do {
       result \<leftarrow> inorder_successor h position;
       h' \<leftarrow> erase_self h position;
       Some (h', result)
     }"

definition exchange_elements :: "'a heap \<Rightarrow> addr \<Rightarrow> addr \<Rightarrow> 'a heap option" where
  "exchange_elements h i j = exchange_nodes h i j"

definition lower_bound :: "'a heap \<Rightarrow> addr \<Rightarrow> 'a comparator \<Rightarrow> addr option" where
  "lower_bound h s cmp =
     (if left_f (h s) \<noteq> 0 then lower_bound_node h (left_f (h s)) cmp else Some s)"

definition upper_bound :: "'a heap \<Rightarrow> addr \<Rightarrow> 'a comparator \<Rightarrow> addr option" where
  "upper_bound h s cmp =
     (if left_f (h s) \<noteq> 0 then upper_bound_node h (left_f (h s)) cmp else Some s)"

section \<open>Abstraction: the tree a store holds\<close>

text \<open>\<open>tree_at h p par t\<close>: in store \<open>h\<close>, pointer \<open>p\<close> is the root of a subtree of shape
  \<open>t\<close> (the nodes named by their addresses), whose root's \<^verbatim>\<open>parent_\<close> is \<open>par\<close>, and
  every \<^verbatim>\<open>size_\<close> in it is the subtree's node count.\<close>

fun tree_at :: "'a heap \<Rightarrow> addr \<Rightarrow> addr \<Rightarrow> addr tree \<Rightarrow> bool" where
  "tree_at h p par Leaf = (p = 0)"
| "tree_at h p par (Node l a r) =
     (p = a \<and> a \<noteq> 0 \<and> parent_f (h a) = par \<and> size_f (h a) = size l + size r + 1 \<and>
      tree_at h (left_f (h a)) a l \<and> tree_at h (right_f (h a)) a r)"

text \<open>\<open>wf_tree h s t\<close>: \<open>s\<close> is the sentinel of a tree whose real nodes form \<open>t\<close>.\<close>

definition wf_tree :: "'a heap \<Rightarrow> addr \<Rightarrow> addr tree \<Rightarrow> bool" where
  "wf_tree h s t =
     (s \<noteq> 0 \<and> parent_f (h s) = s \<and> right_f (h s) = 0 \<and> tree_at h (left_f (h s)) s t \<and>
      distinct (inorder t) \<and> s \<notin> set_tree t)"

text \<open>The weight-balance audit: \<^verbatim>\<open>is_balanced\<close> in both directions at every node.\<close>

fun wb_audit :: "'a heap \<Rightarrow> addr tree \<Rightarrow> bool" where
  "wb_audit h Leaf = True"
| "wb_audit h (Node l a r) =
     (is_balanced h (left_f (h a)) (right_f (h a)) \<and> is_balanced h (right_f (h a)) (left_f (h a)) \<and>
      wb_audit h l \<and> wb_audit h r)"

definition values_of :: "'a heap \<Rightarrow> addr list \<Rightarrow> 'a list" where
  "values_of h xs = map (\<lambda>a. value_f (h a)) xs"

text \<open>A path from a subtree up to the sentinel: each frame is an ancestor and its other
  subtree. The innermost frame comes first.\<close>

datatype frame = InLeft addr "addr tree" | InRight "addr tree" addr

fun plug :: "frame list \<Rightarrow> addr tree \<Rightarrow> addr tree" where
  "plug [] t = t"
| "plug (InLeft a r # c) t = plug c (Node t a r)"
| "plug (InRight l a # c) t = plug c (Node l a t)"

fun ctx_parent :: "frame list \<Rightarrow> addr \<Rightarrow> addr" where
  "ctx_parent [] s = s"
| "ctx_parent (InLeft a r # c) s = a"
| "ctx_parent (InRight l a # c) s = a"

fun ctx_before :: "frame list \<Rightarrow> addr list" where
  "ctx_before [] = []"
| "ctx_before (InLeft a r # c) = ctx_before c"
| "ctx_before (InRight l a # c) = ctx_before c @ inorder l @ [a]"

fun ctx_after :: "frame list \<Rightarrow> addr list" where
  "ctx_after [] = []"
| "ctx_after (InLeft a r # c) = a # inorder r @ ctx_after c"
| "ctx_after (InRight l a # c) = ctx_after c"

definition ctx_set :: "frame list \<Rightarrow> addr set" where
  "ctx_set c = set (ctx_before c) \<union> set (ctx_after c)"

text \<open>\<open>ctx_at h p n d c s\<close>: the ancestors of the subtree at \<open>p\<close> (which has \<open>n\<close> nodes)
  are laid out in \<open>h\<close> as \<open>c\<close> says, below sentinel \<open>s\<close>; each ancestor's \<^verbatim>\<open>size_\<close> is \<open>d\<close>
  short of its node count.\<close>

fun ctx_at :: "'a heap \<Rightarrow> addr \<Rightarrow> nat \<Rightarrow> int \<Rightarrow> frame list \<Rightarrow> addr \<Rightarrow> bool" where
  "ctx_at h p n d [] s = (left_f (h s) = p)"
| "ctx_at h p n d (InLeft a r # c) s =
     (a \<noteq> 0 \<and> left_f (h a) = p \<and> tree_at h (right_f (h a)) a r \<and>
      parent_f (h a) = ctx_parent c s \<and> int (size_f (h a)) + d = int (n + size r + 1) \<and>
      ctx_at h a (n + size r + 1) d c s)"
| "ctx_at h p n d (InRight l a # c) s =
     (a \<noteq> 0 \<and> right_f (h a) = p \<and> tree_at h (left_f (h a)) a l \<and>
      parent_f (h a) = ctx_parent c s \<and> int (size_f (h a)) + d = int (size l + n + 1) \<and>
      ctx_at h a (size l + n + 1) d c s)"

definition relink :: "'a heap \<Rightarrow> addr \<Rightarrow> addr \<Rightarrow> addr \<Rightarrow> 'a heap" where
  "relink h par a b = (if left_f (h par) = a then set_left h par b else set_right h par b)"

text \<open>Where \<^verbatim>\<open>insert_before_self\<close> hangs the new node \<open>r\<close>: below the rightmost node of the
  left subtree of \<open>pos\<close>, or as the left child of \<open>pos\<close>.\<close>

definition hang_new :: "'a heap \<Rightarrow> addr \<Rightarrow> addr \<Rightarrow> 'a heap option" where
  "hang_new h0 pos r =
     (if left_f (h0 pos) \<noteq> 0 then
        do { p \<leftarrow> descend_right h0 (left_f (h0 pos)); Some (set_parent (set_right h0 p r) r p) }
      else Some (set_parent (set_left h0 pos r) r pos))"

text \<open>A path that ends below a real node \<open>tp\<close> instead of the sentinel.\<close>

fun seg_at :: "'a heap \<Rightarrow> addr \<Rightarrow> nat \<Rightarrow> int \<Rightarrow> frame list \<Rightarrow> addr \<Rightarrow> bool" where
  "seg_at h p n d [] tp = True"
| "seg_at h p n d (InLeft a r # c) tp =
     (a \<noteq> 0 \<and> left_f (h a) = p \<and> tree_at h (right_f (h a)) a r \<and>
      parent_f (h a) = ctx_parent c tp \<and> int (size_f (h a)) + d = int (n + size r + 1) \<and>
      seg_at h a (n + size r + 1) d c tp)"
| "seg_at h p n d (InRight l a # c) tp =
     (a \<noteq> 0 \<and> right_f (h a) = p \<and> tree_at h (left_f (h a)) a l \<and>
      parent_f (h a) = ctx_parent c tp \<and> int (size_f (h a)) + d = int (size l + n + 1) \<and>
      seg_at h a (size l + n + 1) d c tp)"

fun ctx_top :: "frame list \<Rightarrow> addr \<Rightarrow> addr" where
  "ctx_top [] p = p"
| "ctx_top (InLeft a r # c) p = ctx_top c a"
| "ctx_top (InRight l a # c) p = ctx_top c a"

fun ctx_size :: "frame list \<Rightarrow> nat \<Rightarrow> nat" where
  "ctx_size [] n = n"
| "ctx_size (InLeft a r # c) n = ctx_size c (n + size r + 1)"
| "ctx_size (InRight l a # c) n = ctx_size c (size l + n + 1)"

text \<open>Concrete stores for checking the theorems on an input: zeroed memory, and a tree of
  three elements \<open>10, 20, 30\<close> at addresses \<open>2, 3, 4\<close> below the sentinel at address \<open>1\<close>.\<close>

definition store0 :: "nat heap" where
  "store0 = (\<lambda>_. \<lparr>value_f = 0, size_f = 0, left_f = 0, right_f = 0, parent_f = 0\<rparr>)"

definition store3 :: "nat heap" where
  "store3 = store0
     (1 := \<lparr>value_f = 0, size_f = 0, left_f = 3, right_f = 0, parent_f = 1\<rparr>,
      2 := \<lparr>value_f = 10, size_f = 1, left_f = 0, right_f = 0, parent_f = 3\<rparr>,
      3 := \<lparr>value_f = 20, size_f = 3, left_f = 2, right_f = 4, parent_f = 1\<rparr>,
      4 := \<lparr>value_f = 30, size_f = 1, left_f = 0, right_f = 0, parent_f = 3\<rparr>)"

definition tree3 :: "addr tree" where
  "tree3 = Node (Node Leaf 2 Leaf) 3 (Node Leaf 4 Leaf)"

section \<open>Store updates\<close>

lemmas upd_defs = set_left_def set_right_def set_parent_def set_size_def

lemma set_left_fld [simp]:
  "left_f (set_left h p x q) = (if q = p then x else left_f (h q))"
  "right_f (set_left h p x q) = right_f (h q)"
  "parent_f (set_left h p x q) = parent_f (h q)"
  "size_f (set_left h p x q) = size_f (h q)"
  "value_f (set_left h p x q) = value_f (h q)"
  by (simp_all add: set_left_def)

lemma set_right_fld [simp]:
  "left_f (set_right h p x q) = left_f (h q)"
  "right_f (set_right h p x q) = (if q = p then x else right_f (h q))"
  "parent_f (set_right h p x q) = parent_f (h q)"
  "size_f (set_right h p x q) = size_f (h q)"
  "value_f (set_right h p x q) = value_f (h q)"
  by (simp_all add: set_right_def)

lemma set_parent_fld [simp]:
  "left_f (set_parent h p x q) = left_f (h q)"
  "right_f (set_parent h p x q) = right_f (h q)"
  "parent_f (set_parent h p x q) = (if q = p then x else parent_f (h q))"
  "size_f (set_parent h p x q) = size_f (h q)"
  "value_f (set_parent h p x q) = value_f (h q)"
  by (simp_all add: set_parent_def)

lemma set_size_fld [simp]:
  "left_f (set_size h p n q) = left_f (h q)"
  "right_f (set_size h p n q) = right_f (h q)"
  "parent_f (set_size h p n q) = parent_f (h q)"
  "size_f (set_size h p n q) = (if q = p then n else size_f (h q))"
  "value_f (set_size h p n q) = value_f (h q)"
  by (simp_all add: set_size_def)

lemma recalculate_size_fld [simp]:
  "left_f (recalculate_size h p q) = left_f (h q)"
  "right_f (recalculate_size h p q) = right_f (h q)"
  "parent_f (recalculate_size h p q) = parent_f (h q)"
  "value_f (recalculate_size h p q) = value_f (h q)"
  "size_f (recalculate_size h p q) =
     (if q = p then size_node h (left_f (h p)) + size_node h (right_f (h p)) + 1 else size_f (h q))"
  by (simp_all add: recalculate_size_def)

lemma slot_set_fld [simp]:
  "parent_f (slot_set h sl x q) = parent_f (h q)"
  "size_f (slot_set h sl x q) = size_f (h q)"
  "value_f (slot_set h sl x q) = value_f (h q)"
  by (cases sl; simp)+

lemma relink_fld [simp]:
  "parent_f (relink h par a b q) = parent_f (h q)"
  "size_f (relink h par a b q) = size_f (h q)"
  "value_f (relink h par a b q) = value_f (h q)"
  by (simp_all add: relink_def)

lemma set_out [simp]:
  "q \<noteq> p \<Longrightarrow> set_left h p x q = h q"
  "q \<noteq> p \<Longrightarrow> set_right h p x q = h q"
  "q \<noteq> p \<Longrightarrow> set_parent h p x q = h q"
  "q \<noteq> p \<Longrightarrow> set_size h p n q = h q"
  "q \<noteq> p \<Longrightarrow> recalculate_size h p q = h q"
  "q \<noteq> par \<Longrightarrow> relink h par a b q = h q"
  by (simp_all add: upd_defs recalculate_size_def relink_def)

lemma size_node_0 [simp]: "size_node h 0 = 0"
  by (simp add: size_node_def)

lemma size_node_set [simp]:
  "size_node (set_left h p x) q = size_node h q"
  "size_node (set_right h p x) q = size_node h q"
  "size_node (set_parent h p x) q = size_node h q"
  "size_node (relink h par a b) q = size_node h q"
  "size_node (set_size h p n) q = (if q = p \<and> q \<noteq> 0 then n else size_node h q)"
  "size_node (recalculate_size h p) q =
    (if q = p \<and> q \<noteq> 0 then size_node h (left_f (h p)) + size_node h (right_f (h p)) + 1
     else size_node h q)"
  by (simp_all add: size_node_def)

lemma slot_set_owner: "parent_f (h a) = par \<Longrightarrow> slot_set h (owner h a) b = relink h par a b"
  by (simp add: owner_def relink_def)

section \<open>Subtrees in the store\<close>

lemma tree_at_frame:
  "tree_at h p par t \<Longrightarrow> (\<And>x. x \<in> set_tree t \<Longrightarrow> h' x = h x) \<Longrightarrow> tree_at h' p par t"
  by (induction t arbitrary: p par) auto

lemma tree_at_null [simp]: "tree_at h 0 par t = (t = Leaf)"
  by (cases t) auto

lemma tree_at_root_cases: "tree_at h q par t \<Longrightarrow> q = 0 \<or> q \<in> set_tree t"
  by (cases t) auto

lemma tree_at_root_neq:
  "tree_at h q par t \<Longrightarrow> x \<notin> set_tree t \<Longrightarrow> x \<noteq> 0 \<Longrightarrow> q \<noteq> x \<and> x \<noteq> q"
  by (cases t) auto

lemma tree_at_nonnull: "tree_at h q par t \<Longrightarrow> 0 \<notin> set_tree t"
  by (induction t arbitrary: q par) auto

lemma size_node_tree: "tree_at h p par t \<Longrightarrow> size_node h p = size t"
  by (cases t) (auto simp: size_node_def)

lemma tree_at_set [simp]:
  "x \<notin> set_tree t \<Longrightarrow> tree_at (set_left h x y) p par t = tree_at h p par t"
  "x \<notin> set_tree t \<Longrightarrow> tree_at (set_right h x y) p par t = tree_at h p par t"
  "x \<notin> set_tree t \<Longrightarrow> tree_at (set_parent h x y) p par t = tree_at h p par t"
  "x \<notin> set_tree t \<Longrightarrow> tree_at (set_size h x n) p par t = tree_at h p par t"
  "x \<notin> set_tree t \<Longrightarrow> tree_at (recalculate_size h x) p par t = tree_at h p par t"
  by (induction t arbitrary: p par; simp add: upd_defs recalculate_size_def)+

lemma tree_at_relink [simp]:
  "x \<notin> set_tree t \<Longrightarrow> tree_at (relink h x a b) p par t = tree_at h p par t"
  by (simp add: relink_def)

lemma tree_at_set_parent_root:
  "distinct (inorder t) \<Longrightarrow> tree_at h p par0 t \<Longrightarrow> tree_at (set_parent h p y) p y t"
  by (cases t) auto

lemma balance_left_single:
  assumes T: "tree_at h a par (Node l a (Node rl b rr))"
    and D: "distinct (inorder (Node l a (Node rl b rr)))"
      "par \<notin> set_tree (Node l a (Node rl b rr))" "par \<noteq> 0"
    and U: "\<not> 3 * (size l + 1) \<ge> size rl + size rr + 2" "size rl + 1 \<le> 2 * (size rr + 1)"
  shows "\<exists>h'. balance_left h a = Some (h', b) \<and> tree_at h' b par (Node (Node l a rl) b rr) \<and>
     (\<forall>x. x \<notin> set_tree (Node l a (Node rl b rr)) \<longrightarrow> h' x = relink h par a b x) \<and>
     (\<forall>x. value_f (h' x) = value_f (h x))"
proof -
  define c where "c = left_f (h b)"
  define e where "e = right_f (h b)"
  define pl where "pl = left_f (h a)"
  from T have F: "a \<noteq> 0" "b \<noteq> 0" "right_f (h a) = b" "left_f (h a) = pl" "left_f (h b) = c"
    "right_f (h b) = e" "parent_f (h a) = par" "parent_f (h b) = a"
    and Tl: "tree_at h pl a l" and Trl: "tree_at h c b rl" and Trr: "tree_at h e b rr"
    by (simp_all add: c_def e_def pl_def)
  from D have N: "a \<noteq> b" "b \<noteq> a" "par \<noteq> a" "par \<noteq> b" "a \<noteq> par" "b \<noteq> par"
     "a \<notin> set_tree l" "a \<notin> set_tree rl" "a \<notin> set_tree rr"
     "b \<notin> set_tree l" "b \<notin> set_tree rl" "b \<notin> set_tree rr"
     "par \<notin> set_tree l" "par \<notin> set_tree rl" "par \<notin> set_tree rr"
     "distinct (inorder l)" "distinct (inorder rl)" "distinct (inorder rr)"
    by simp_all
  have sz: "size_node h pl = size l" "size_node h b = size rl + size rr + 1"
     "size_node h c = size rl" "size_node h e = size rr"
    using size_node_tree[OF Tl] size_node_tree[OF Trl] size_node_tree[OF Trr] T F
    by (simp_all add: size_node_def)
  have R: "e \<noteq> a" "e \<noteq> b" "e \<noteq> par" "pl \<noteq> a" "pl \<noteq> b" "pl \<noteq> par"
     "c \<noteq> a" "c \<noteq> b" "c \<noteq> par" "a \<noteq> e" "b \<noteq> e" "par \<noteq> e" "a \<noteq> pl" "b \<noteq> pl"
     "par \<noteq> pl" "a \<noteq> c" "b \<noteq> c" "par \<noteq> c"
    using tree_at_root_neq[OF Tl, of a] tree_at_root_neq[OF Tl, of b] tree_at_root_neq[OF Tl, of par]
      tree_at_root_neq[OF Trl, of a] tree_at_root_neq[OF Trl, of b] tree_at_root_neq[OF Trl, of par]
      tree_at_root_neq[OF Trr, of a] tree_at_root_neq[OF Trr, of b] tree_at_root_neq[OF Trr, of par]
      N F D(3) by simp_all
  have X: "\<And>x. x \<notin> set_tree rl \<Longrightarrow> c \<noteq> 0 \<Longrightarrow> x \<noteq> c"
    using tree_at_root_cases[OF Trl] by auto
  have NC: "c \<noteq> 0 \<Longrightarrow> c \<notin> set_tree l" "c \<noteq> 0 \<Longrightarrow> c \<notin> set_tree rr"
    using tree_at_root_cases[OF Trl] D(1) by auto
  note [simp] = F N sz D(3) R NC
  have O: "slot_set h (owner h a) b = relink h par a b"
    by (rule slot_set_owner) simp
  show ?thesis
  proof (cases "c = 0")
    case True
    then show ?thesis using U Tl Trl Trr
      by (simp add: balance_left_def is_balanced_def is_single_def Let_def O tree_at_set_parent_root)
  next
    case False
    then show ?thesis using U Tl Trl Trr
      by (simp add: balance_left_def is_balanced_def is_single_def Let_def O tree_at_set_parent_root X)
  qed
qed

lemma balance_left_double:
  assumes T: "tree_at h a par (Node l a (Node (Node cl c cr) b rr))"
    and D: "distinct (inorder (Node l a (Node (Node cl c cr) b rr)))"
      "par \<notin> set_tree (Node l a (Node (Node cl c cr) b rr))" "par \<noteq> 0"
    and U: "\<not> 3 * (size l + 1) \<ge> size cl + size cr + size rr + 3"
      "\<not> size cl + size cr + 2 \<le> 2 * (size rr + 1)"
  shows "\<exists>h'. balance_left h a = Some (h', c) \<and>
     tree_at h' c par (Node (Node l a cl) c (Node cr b rr)) \<and>
     (\<forall>x. x \<notin> set_tree (Node l a (Node (Node cl c cr) b rr)) \<longrightarrow> h' x = relink h par a c x) \<and>
     (\<forall>x. value_f (h' x) = value_f (h x))"
proof -
  define d where "d = left_f (h c)"
  define e where "e = right_f (h c)"
  define f where "f = right_f (h b)"
  define pl where "pl = left_f (h a)"
  from T have F: "a \<noteq> 0" "b \<noteq> 0" "c \<noteq> 0" "right_f (h a) = b" "left_f (h a) = pl"
    "left_f (h b) = c" "right_f (h b) = f" "left_f (h c) = d" "right_f (h c) = e"
    "parent_f (h a) = par" "parent_f (h b) = a" "parent_f (h c) = b"
    and Tl: "tree_at h pl a l" and Tcl: "tree_at h d c cl" and Tcr: "tree_at h e c cr"
    and Trr: "tree_at h f b rr"
    by (simp_all add: d_def e_def f_def pl_def)
  from D have N: "a \<noteq> b" "b \<noteq> a" "a \<noteq> c" "c \<noteq> a" "b \<noteq> c" "c \<noteq> b"
     "par \<noteq> a" "par \<noteq> b" "par \<noteq> c" "a \<noteq> par" "b \<noteq> par" "c \<noteq> par"
     "a \<notin> set_tree l" "a \<notin> set_tree cl" "a \<notin> set_tree cr" "a \<notin> set_tree rr"
     "b \<notin> set_tree l" "b \<notin> set_tree cl" "b \<notin> set_tree cr" "b \<notin> set_tree rr"
     "c \<notin> set_tree l" "c \<notin> set_tree cl" "c \<notin> set_tree cr" "c \<notin> set_tree rr"
     "par \<notin> set_tree l" "par \<notin> set_tree cl" "par \<notin> set_tree cr" "par \<notin> set_tree rr"
     "distinct (inorder l)" "distinct (inorder cl)" "distinct (inorder cr)" "distinct (inorder rr)"
    by simp_all
  have sz: "size_node h pl = size l" "size_node h b = size cl + size cr + size rr + 2"
     "size_node h c = size cl + size cr + 1" "size_node h d = size cl" "size_node h e = size cr"
     "size_node h f = size rr"
    using size_node_tree[OF Tl] size_node_tree[OF Tcl] size_node_tree[OF Tcr] size_node_tree[OF Trr]
      T F by (simp_all add: size_node_def)
  have R: "pl \<noteq> a" "pl \<noteq> b" "pl \<noteq> c" "pl \<noteq> par" "a \<noteq> pl" "b \<noteq> pl" "c \<noteq> pl" "par \<noteq> pl"
    "d \<noteq> a" "d \<noteq> b" "d \<noteq> c" "d \<noteq> par" "a \<noteq> d" "b \<noteq> d" "c \<noteq> d" "par \<noteq> d"
    "e \<noteq> a" "e \<noteq> b" "e \<noteq> c" "e \<noteq> par" "a \<noteq> e" "b \<noteq> e" "c \<noteq> e" "par \<noteq> e"
    "f \<noteq> a" "f \<noteq> b" "f \<noteq> c" "f \<noteq> par" "a \<noteq> f" "b \<noteq> f" "c \<noteq> f" "par \<noteq> f"
    using tree_at_root_neq[OF Tl, of a] tree_at_root_neq[OF Tl, of b] tree_at_root_neq[OF Tl, of c]
      tree_at_root_neq[OF Tl, of par]
      tree_at_root_neq[OF Tcl, of a] tree_at_root_neq[OF Tcl, of b] tree_at_root_neq[OF Tcl, of c]
      tree_at_root_neq[OF Tcl, of par]
      tree_at_root_neq[OF Tcr, of a] tree_at_root_neq[OF Tcr, of b] tree_at_root_neq[OF Tcr, of c]
      tree_at_root_neq[OF Tcr, of par]
      tree_at_root_neq[OF Trr, of a] tree_at_root_neq[OF Trr, of b] tree_at_root_neq[OF Trr, of c]
      tree_at_root_neq[OF Trr, of par]
      N F D(3) by simp_all
  have X: "\<And>x. x \<notin> set_tree cl \<Longrightarrow> d \<noteq> 0 \<Longrightarrow> x \<noteq> d"
    "\<And>x. x \<notin> set_tree cr \<Longrightarrow> e \<noteq> 0 \<Longrightarrow> x \<noteq> e"
    using tree_at_root_cases[OF Tcl] tree_at_root_cases[OF Tcr] by auto
  have ND: "d \<noteq> 0 \<Longrightarrow> d \<notin> set_tree l" "d \<noteq> 0 \<Longrightarrow> d \<notin> set_tree cr" "d \<noteq> 0 \<Longrightarrow> d \<notin> set_tree rr"
    using tree_at_root_cases[OF Tcl] D(1) by auto
  have NE: "e \<noteq> 0 \<Longrightarrow> e \<notin> set_tree l" "e \<noteq> 0 \<Longrightarrow> e \<notin> set_tree cl" "e \<noteq> 0 \<Longrightarrow> e \<notin> set_tree rr"
    using tree_at_root_cases[OF Tcr] D(1) by auto
  have DE: "d \<noteq> 0 \<Longrightarrow> d \<noteq> e" "e \<noteq> 0 \<Longrightarrow> e \<noteq> d"
    using tree_at_root_cases[OF Tcl] tree_at_root_cases[OF Tcr] D(1) by auto
  note [simp] = F N sz D(3) R ND NE DE
  have O: "slot_set h (owner h a) c = relink h par a c"
    by (rule slot_set_owner) simp
  have B: "\<not> is_balanced h pl b" "\<not> is_single h c f"
    using U by (simp_all add: is_balanced_def is_single_def)
  consider (nn) "d = 0" "e = 0" | (np) "d = 0" "e \<noteq> 0" | (pn) "d \<noteq> 0" "e = 0"
    | (pp) "d \<noteq> 0" "e \<noteq> 0" by blast
  then show ?thesis
  proof cases
    case nn
    then show ?thesis using B Tl Tcl Tcr Trr
      by (simp add: balance_left_def Let_def O tree_at_set_parent_root)
  next
    case np
    then show ?thesis using B Tl Tcl Tcr Trr
      by (simp add: balance_left_def Let_def O tree_at_set_parent_root X)
  next
    case pn
    then show ?thesis using B Tl Tcl Tcr Trr
      by (simp add: balance_left_def Let_def O tree_at_set_parent_root X)
  next
    case pp
    then show ?thesis using B Tl Tcl Tcr Trr
      by (simp add: balance_left_def Let_def O tree_at_set_parent_root X)
  qed
qed

lemma balance_left_keep:
  assumes T: "tree_at h a par (Node l a r)" and P: "par \<noteq> 0"
    and C: "left_f (h par) = a \<or> right_f (h par) = a"
    and U: "3 * (size l + 1) \<ge> size r + 1"
  shows "balance_left h a = Some (h, a) \<and> relink h par a a = h"
proof -
  from T have F: "a \<noteq> 0" "parent_f (h a) = par" and Tl: "tree_at h (left_f (h a)) a l"
    and Tr: "tree_at h (right_f (h a)) a r"
    by simp_all
  have "is_balanced h (left_f (h a)) (right_f (h a))"
    using U size_node_tree[OF Tl] size_node_tree[OF Tr] by (simp add: is_balanced_def)
  then have "balance_left h a = Some (h, a)"
    using F P by (simp add: balance_left_def)
  moreover have "relink h par a a = h"
    using C by (auto simp: relink_def upd_defs)
  ultimately show ?thesis by simp
qed

lemma balance_left_correct:
  assumes T: "tree_at h a par (Node l a r)"
    and D: "distinct (inorder (Node l a r))" "par \<notin> set_tree (Node l a r)" "par \<noteq> 0"
    and C: "left_f (h par) = a \<or> right_f (h par) = a"
  shows "\<exists>h' b t'. balance_left h a = Some (h', b) \<and> tree_at h' b par t' \<and>
     inorder t' = inorder (Node l a r) \<and>
     (\<forall>x. x \<notin> set_tree (Node l a r) \<longrightarrow> h' x = relink h par a b x) \<and>
     (\<forall>x. value_f (h' x) = value_f (h x))"
proof (cases "3 * (size l + 1) \<ge> size r + 1")
  case True
  from balance_left_keep[OF T D(3) C True] T show ?thesis
    by (intro exI[of _ h] exI[of _ a] exI[of _ "(Node l a r)"]) simp
next
  case unb: False
  then obtain rl b rr where r: "r = (Node rl b rr)"
    by (cases r) auto
  show ?thesis
  proof (cases "size rl + 1 \<le> 2 * (size rr + 1)")
    case True
    from balance_left_single[OF T[unfolded r] D(1,2)[unfolded r] D(3) _ True] unb r
    obtain h' where "balance_left h a = Some (h', b)"
      "tree_at h' b par (Node (Node l a rl) b rr)"
      "\<forall>x. x \<notin> set_tree (Node l a (Node rl b rr)) \<longrightarrow> h' x = relink h par a b x"
      "\<forall>x. value_f (h' x) = value_f (h x)"
      by auto
    then show ?thesis unfolding r
      by (intro exI[of _ h'] exI[of _ b] exI[of _ "(Node (Node l a rl) b rr)"]) simp
  next
    case dbl: False
    then obtain cl c cr where rl: "rl = (Node cl c cr)"
      by (cases rl) auto
    from balance_left_double[OF T[unfolded r rl] D(1,2)[unfolded r rl] D(3)] unb dbl r rl
    obtain h' where "balance_left h a = Some (h', c)"
      "tree_at h' c par (Node (Node l a cl) c (Node cr b rr))"
      "\<forall>x. x \<notin> set_tree (Node l a (Node (Node cl c cr) b rr)) \<longrightarrow> h' x = relink h par a c x"
      "\<forall>x. value_f (h' x) = value_f (h x)"
      by auto
    then show ?thesis unfolding r rl
      by (intro exI[of _ h'] exI[of _ c] exI[of _ "(Node (Node l a cl) c (Node cr b rr))"]) simp
  qed
qed

lemma balance_right_single:
  assumes T: "tree_at h a par (Node (Node ll b lr) a r)"
    and D: "distinct (inorder (Node (Node ll b lr) a r))"
      "par \<notin> set_tree (Node (Node ll b lr) a r)" "par \<noteq> 0"
    and U: "\<not> 3 * (size r + 1) \<ge> size lr + size ll + 2" "size lr + 1 \<le> 2 * (size ll + 1)"
  shows "\<exists>h'. balance_right h a = Some (h', b) \<and> tree_at h' b par (Node ll b (Node lr a r)) \<and>
     (\<forall>x. x \<notin> set_tree (Node (Node ll b lr) a r) \<longrightarrow> h' x = relink h par a b x) \<and>
     (\<forall>x. value_f (h' x) = value_f (h x))"
proof -
  define c where "c = right_f (h b)"
  define e where "e = left_f (h b)"
  define pr where "pr = right_f (h a)"
  from T have F: "a \<noteq> 0" "b \<noteq> 0" "left_f (h a) = b" "right_f (h a) = pr" "right_f (h b) = c"
    "left_f (h b) = e" "parent_f (h a) = par" "parent_f (h b) = a"
    and Tr: "tree_at h pr a r" and Tlr: "tree_at h c b lr" and Tll: "tree_at h e b ll"
    by (simp_all add: c_def e_def pr_def)
  from D have N: "a \<noteq> b" "b \<noteq> a" "par \<noteq> a" "par \<noteq> b" "a \<noteq> par" "b \<noteq> par"
     "a \<notin> set_tree r" "a \<notin> set_tree lr" "a \<notin> set_tree ll"
     "b \<notin> set_tree r" "b \<notin> set_tree lr" "b \<notin> set_tree ll"
     "par \<notin> set_tree r" "par \<notin> set_tree lr" "par \<notin> set_tree ll"
     "distinct (inorder r)" "distinct (inorder lr)" "distinct (inorder ll)"
    by simp_all
  have sz: "size_node h pr = size r" "size_node h b = size lr + size ll + 1"
     "size_node h c = size lr" "size_node h e = size ll"
    using size_node_tree[OF Tr] size_node_tree[OF Tlr] size_node_tree[OF Tll] T F
    by (simp_all add: size_node_def)
  have R: "e \<noteq> a" "e \<noteq> b" "e \<noteq> par" "pr \<noteq> a" "pr \<noteq> b" "pr \<noteq> par"
     "c \<noteq> a" "c \<noteq> b" "c \<noteq> par" "a \<noteq> e" "b \<noteq> e" "par \<noteq> e" "a \<noteq> pr" "b \<noteq> pr"
     "par \<noteq> pr" "a \<noteq> c" "b \<noteq> c" "par \<noteq> c"
    using tree_at_root_neq[OF Tr, of a] tree_at_root_neq[OF Tr, of b] tree_at_root_neq[OF Tr, of par]
      tree_at_root_neq[OF Tlr, of a] tree_at_root_neq[OF Tlr, of b] tree_at_root_neq[OF Tlr, of par]
      tree_at_root_neq[OF Tll, of a] tree_at_root_neq[OF Tll, of b] tree_at_root_neq[OF Tll, of par]
      N F D(3) by simp_all
  have X: "\<And>x. x \<notin> set_tree lr \<Longrightarrow> c \<noteq> 0 \<Longrightarrow> x \<noteq> c"
    using tree_at_root_cases[OF Tlr] by auto
  have NC: "c \<noteq> 0 \<Longrightarrow> c \<notin> set_tree r" "c \<noteq> 0 \<Longrightarrow> c \<notin> set_tree ll"
    using tree_at_root_cases[OF Tlr] D(1) by auto
  note [simp] = F N sz D(3) R NC
  have O: "slot_set h (owner h a) b = relink h par a b"
    by (rule slot_set_owner) simp
  show ?thesis
  proof (cases "c = 0")
    case True
    then show ?thesis using U Tr Tlr Tll
      by (simp add: balance_right_def is_balanced_def is_single_def Let_def O tree_at_set_parent_root)
  next
    case False
    then show ?thesis using U Tr Tlr Tll
      by (simp add: balance_right_def is_balanced_def is_single_def Let_def O tree_at_set_parent_root X)
  qed
qed

lemma balance_right_double:
  assumes T: "tree_at h a par (Node (Node ll b (Node cl c cr)) a r)"
    and D: "distinct (inorder (Node (Node ll b (Node cl c cr)) a r))"
      "par \<notin> set_tree (Node (Node ll b (Node cl c cr)) a r)" "par \<noteq> 0"
    and U: "\<not> 3 * (size r + 1) \<ge> size cr + size cl + size ll + 3"
      "\<not> size cr + size cl + 2 \<le> 2 * (size ll + 1)"
  shows "\<exists>h'. balance_right h a = Some (h', c) \<and>
     tree_at h' c par (Node (Node ll b cl) c (Node cr a r)) \<and>
     (\<forall>x. x \<notin> set_tree (Node (Node ll b (Node cl c cr)) a r) \<longrightarrow> h' x = relink h par a c x) \<and>
     (\<forall>x. value_f (h' x) = value_f (h x))"
proof -
  define d where "d = right_f (h c)"
  define e where "e = left_f (h c)"
  define f where "f = left_f (h b)"
  define pr where "pr = right_f (h a)"
  from T have F: "a \<noteq> 0" "b \<noteq> 0" "c \<noteq> 0" "left_f (h a) = b" "right_f (h a) = pr"
    "right_f (h b) = c" "left_f (h b) = f" "right_f (h c) = d" "left_f (h c) = e"
    "parent_f (h a) = par" "parent_f (h b) = a" "parent_f (h c) = b"
    and Tr: "tree_at h pr a r" and Tcr: "tree_at h d c cr" and Tcl: "tree_at h e c cl"
    and Tll: "tree_at h f b ll"
    by (simp_all add: d_def e_def f_def pr_def)
  from D have N: "a \<noteq> b" "b \<noteq> a" "a \<noteq> c" "c \<noteq> a" "b \<noteq> c" "c \<noteq> b"
     "par \<noteq> a" "par \<noteq> b" "par \<noteq> c" "a \<noteq> par" "b \<noteq> par" "c \<noteq> par"
     "a \<notin> set_tree r" "a \<notin> set_tree cr" "a \<notin> set_tree cl" "a \<notin> set_tree ll"
     "b \<notin> set_tree r" "b \<notin> set_tree cr" "b \<notin> set_tree cl" "b \<notin> set_tree ll"
     "c \<notin> set_tree r" "c \<notin> set_tree cr" "c \<notin> set_tree cl" "c \<notin> set_tree ll"
     "par \<notin> set_tree r" "par \<notin> set_tree cr" "par \<notin> set_tree cl" "par \<notin> set_tree ll"
     "distinct (inorder r)" "distinct (inorder cr)" "distinct (inorder cl)" "distinct (inorder ll)"
    by simp_all
  have sz: "size_node h pr = size r" "size_node h b = size cr + size cl + size ll + 2"
     "size_node h c = size cr + size cl + 1" "size_node h d = size cr" "size_node h e = size cl"
     "size_node h f = size ll"
    using size_node_tree[OF Tr] size_node_tree[OF Tcr] size_node_tree[OF Tcl] size_node_tree[OF Tll]
      T F by (simp_all add: size_node_def)
  have R: "pr \<noteq> a" "pr \<noteq> b" "pr \<noteq> c" "pr \<noteq> par" "a \<noteq> pr" "b \<noteq> pr" "c \<noteq> pr" "par \<noteq> pr"
    "d \<noteq> a" "d \<noteq> b" "d \<noteq> c" "d \<noteq> par" "a \<noteq> d" "b \<noteq> d" "c \<noteq> d" "par \<noteq> d"
    "e \<noteq> a" "e \<noteq> b" "e \<noteq> c" "e \<noteq> par" "a \<noteq> e" "b \<noteq> e" "c \<noteq> e" "par \<noteq> e"
    "f \<noteq> a" "f \<noteq> b" "f \<noteq> c" "f \<noteq> par" "a \<noteq> f" "b \<noteq> f" "c \<noteq> f" "par \<noteq> f"
    using tree_at_root_neq[OF Tr, of a] tree_at_root_neq[OF Tr, of b] tree_at_root_neq[OF Tr, of c]
      tree_at_root_neq[OF Tr, of par]
      tree_at_root_neq[OF Tcr, of a] tree_at_root_neq[OF Tcr, of b] tree_at_root_neq[OF Tcr, of c]
      tree_at_root_neq[OF Tcr, of par]
      tree_at_root_neq[OF Tcl, of a] tree_at_root_neq[OF Tcl, of b] tree_at_root_neq[OF Tcl, of c]
      tree_at_root_neq[OF Tcl, of par]
      tree_at_root_neq[OF Tll, of a] tree_at_root_neq[OF Tll, of b] tree_at_root_neq[OF Tll, of c]
      tree_at_root_neq[OF Tll, of par]
      N F D(3) by simp_all
  have X: "\<And>x. x \<notin> set_tree cr \<Longrightarrow> d \<noteq> 0 \<Longrightarrow> x \<noteq> d"
    "\<And>x. x \<notin> set_tree cl \<Longrightarrow> e \<noteq> 0 \<Longrightarrow> x \<noteq> e"
    using tree_at_root_cases[OF Tcr] tree_at_root_cases[OF Tcl] by auto
  have ND: "d \<noteq> 0 \<Longrightarrow> d \<notin> set_tree r" "d \<noteq> 0 \<Longrightarrow> d \<notin> set_tree cl" "d \<noteq> 0 \<Longrightarrow> d \<notin> set_tree ll"
    using tree_at_root_cases[OF Tcr] D(1) by auto
  have NE: "e \<noteq> 0 \<Longrightarrow> e \<notin> set_tree r" "e \<noteq> 0 \<Longrightarrow> e \<notin> set_tree cr" "e \<noteq> 0 \<Longrightarrow> e \<notin> set_tree ll"
    using tree_at_root_cases[OF Tcl] D(1) by auto
  have DE: "d \<noteq> 0 \<Longrightarrow> d \<noteq> e" "e \<noteq> 0 \<Longrightarrow> e \<noteq> d"
    using tree_at_root_cases[OF Tcr] tree_at_root_cases[OF Tcl] D(1) by auto
  note [simp] = F N sz D(3) R ND NE DE
  have O: "slot_set h (owner h a) c = relink h par a c"
    by (rule slot_set_owner) simp
  have B: "\<not> is_balanced h pr b" "\<not> is_single h c f"
    using U by (simp_all add: is_balanced_def is_single_def)
  consider (nn) "d = 0" "e = 0" | (np) "d = 0" "e \<noteq> 0" | (pn) "d \<noteq> 0" "e = 0"
    | (pp) "d \<noteq> 0" "e \<noteq> 0" by blast
  then show ?thesis
  proof cases
    case nn
    then show ?thesis using B Tr Tcr Tcl Tll
      by (simp add: balance_right_def Let_def O tree_at_set_parent_root)
  next
    case np
    then show ?thesis using B Tr Tcr Tcl Tll
      by (simp add: balance_right_def Let_def O tree_at_set_parent_root X)
  next
    case pn
    then show ?thesis using B Tr Tcr Tcl Tll
      by (simp add: balance_right_def Let_def O tree_at_set_parent_root X)
  next
    case pp
    then show ?thesis using B Tr Tcr Tcl Tll
      by (simp add: balance_right_def Let_def O tree_at_set_parent_root X)
  qed
qed

lemma balance_right_keep:
  assumes T: "tree_at h a par (Node l a r)" and P: "par \<noteq> 0"
    and C: "left_f (h par) = a \<or> right_f (h par) = a"
    and U: "3 * (size r + 1) \<ge> size l + 1"
  shows "balance_right h a = Some (h, a) \<and> relink h par a a = h"
proof -
  from T have F: "a \<noteq> 0" "parent_f (h a) = par" and Tr: "tree_at h (right_f (h a)) a r"
    and Tl: "tree_at h (left_f (h a)) a l"
    by simp_all
  have "is_balanced h (right_f (h a)) (left_f (h a))"
    using U size_node_tree[OF Tr] size_node_tree[OF Tl] by (simp add: is_balanced_def)
  then have "balance_right h a = Some (h, a)"
    using F P by (simp add: balance_right_def)
  moreover have "relink h par a a = h"
    using C by (auto simp: relink_def upd_defs)
  ultimately show ?thesis by simp
qed

lemma balance_right_correct:
  assumes T: "tree_at h a par (Node l a r)"
    and D: "distinct (inorder (Node l a r))" "par \<notin> set_tree (Node l a r)" "par \<noteq> 0"
    and C: "left_f (h par) = a \<or> right_f (h par) = a"
  shows "\<exists>h' b t'. balance_right h a = Some (h', b) \<and> tree_at h' b par t' \<and>
     inorder t' = inorder (Node l a r) \<and>
     (\<forall>x. x \<notin> set_tree (Node l a r) \<longrightarrow> h' x = relink h par a b x) \<and>
     (\<forall>x. value_f (h' x) = value_f (h x))"
proof (cases "3 * (size r + 1) \<ge> size l + 1")
  case True
  from balance_right_keep[OF T D(3) C True] T show ?thesis
    by (intro exI[of _ h] exI[of _ a] exI[of _ "(Node l a r)"]) simp
next
  case unb: False
  then obtain lr b ll where l: "l = (Node ll b lr)"
    by (cases l) auto
  show ?thesis
  proof (cases "size lr + 1 \<le> 2 * (size ll + 1)")
    case True
    from balance_right_single[OF T[unfolded l] D(1,2)[unfolded l] D(3) _ True] unb l
    obtain h' where "balance_right h a = Some (h', b)"
      "tree_at h' b par (Node ll b (Node lr a r))"
      "\<forall>x. x \<notin> set_tree (Node (Node ll b lr) a r) \<longrightarrow> h' x = relink h par a b x"
      "\<forall>x. value_f (h' x) = value_f (h x)"
      by auto
    then show ?thesis unfolding l
      by (intro exI[of _ h'] exI[of _ b] exI[of _ "(Node ll b (Node lr a r))"]) simp
  next
    case dbl: False
    then obtain cr c cl where lr: "lr = (Node cl c cr)"
      by (cases lr) auto
    from balance_right_double[OF T[unfolded l lr] D(1,2)[unfolded l lr] D(3)] unb dbl l lr
    obtain h' where "balance_right h a = Some (h', c)"
      "tree_at h' c par (Node (Node ll b cl) c (Node cr a r))"
      "\<forall>x. x \<notin> set_tree (Node (Node ll b (Node cl c cr)) a r) \<longrightarrow> h' x = relink h par a c x"
      "\<forall>x. value_f (h' x) = value_f (h x)"
      by auto
    then show ?thesis unfolding l lr
      by (intro exI[of _ h'] exI[of _ c] exI[of _ "(Node (Node ll b cl) c (Node cr a r))"]) simp
  qed
qed

section \<open>Paths to the sentinel\<close>

lemma inorder_plug: "inorder (plug c t) = ctx_before c @ inorder t @ ctx_after c"
  by (induction c t rule: plug.induct) simp_all

lemma set_tree_plug: "set_tree (plug c t) = set_tree t \<union> ctx_set c"
  using arg_cong[OF inorder_plug, of set c t] by (auto simp: ctx_set_def)

lemma ctx_set_simps [simp]:
  "ctx_set [] = {}"
  "ctx_set (InLeft a r # c) = insert a (set_tree r \<union> ctx_set c)"
  "ctx_set (InRight l a # c) = insert a (set_tree l \<union> ctx_set c)"
  by (auto simp: ctx_set_def)

lemma ctx_parent_cases: "ctx_parent c s = s \<and> c = [] \<or> ctx_parent c s \<in> ctx_set c"
  by (cases "(c, s)" rule: ctx_parent.cases) auto

lemma ctx_at_frame:
  "ctx_at h p n d c s \<Longrightarrow> (\<And>x. x \<in> ctx_set c \<or> x = s \<Longrightarrow> h' x = h x) \<Longrightarrow> ctx_at h' p n d c s"
proof (induction c arbitrary: p n)
  case Nil
  then show ?case by simp
next
  case (Cons fr c)
  show ?case
  proof (cases fr)
    case (InLeft a r)
    with Cons.prems(1) have ta: "tree_at h (right_f (h a)) a r" and ca: "ctx_at h a (n + size r + 1) d c s"
      by simp_all
    have "tree_at h' (right_f (h a)) a r"
      by (rule tree_at_frame[OF ta]) (simp add: Cons.prems(2) InLeft)
    moreover have "ctx_at h' a (n + size r + 1) d c s"
      by (rule Cons.IH[OF ca]) (auto simp: Cons.prems(2) InLeft)
    moreover have "h' a = h a"
      by (simp add: Cons.prems(2) InLeft)
    ultimately show ?thesis using Cons.prems(1) InLeft by simp
  next
    case (InRight l a)
    with Cons.prems(1) have ta: "tree_at h (left_f (h a)) a l" and ca: "ctx_at h a (size l + n + 1) d c s"
      by simp_all
    have "tree_at h' (left_f (h a)) a l"
      by (rule tree_at_frame[OF ta]) (simp add: Cons.prems(2) InRight)
    moreover have "ctx_at h' a (size l + n + 1) d c s"
      by (rule Cons.IH[OF ca]) (auto simp: Cons.prems(2) InRight)
    moreover have "h' a = h a"
      by (simp add: Cons.prems(2) InRight)
    ultimately show ?thesis using Cons.prems(1) InRight by simp
  qed
qed

lemma ctx_at_resize:
  "ctx_at h p n d c s \<Longrightarrow> int n' - d' = int n - d \<Longrightarrow> ctx_at h p n' d' c s"
proof (induction c arbitrary: p n n')
  case Nil
  then show ?case by simp
next
  case (Cons fr c)
  show ?case
  proof (cases fr)
    case (InLeft a r)
    with Cons.prems have "ctx_at h a (n' + size r + 1) d' c s"
      by (intro Cons.IH[of a "n + size r + 1"]) simp_all
    with Cons.prems InLeft show ?thesis by simp
  next
    case (InRight l a)
    with Cons.prems have "ctx_at h a (size l + n' + 1) d' c s"
      by (intro Cons.IH[of a "size l + n + 1"]) simp_all
    with Cons.prems InRight show ?thesis by simp
  qed
qed

lemma tree_at_plug:
  "tree_at h (left_f (h s)) s (plug c t) \<longleftrightarrow>
     (\<exists>p. ctx_at h p (size t) 0 c s \<and> tree_at h p (ctx_parent c s) t)"
proof (induction c arbitrary: t)
  case Nil
  then show ?case by simp
next
  case (Cons fr c)
  show ?case
  proof (cases fr)
    case (InLeft a r)
    then show ?thesis using Cons.IH[of "Node t a r"] by auto
  next
    case (InRight l a)
    then show ?thesis using Cons.IH[of "Node l a t"] by auto
  qed
qed

lemma ctx_at_relink:
  assumes C: "ctx_at h p n d c s" and P: "p \<noteq> 0" "p \<notin> ctx_set c"
    and D: "distinct (ctx_before c @ ctx_after c)" "s \<notin> ctx_set c"
    and H: "\<And>x. x \<in> ctx_set c \<or> x = s \<Longrightarrow> h' x = relink h (ctx_parent c s) p b x"
  shows "ctx_at h' b n d c s"
proof (cases c)
  case Nil
  with C H[of s] show ?thesis by (simp add: relink_def)
next
  case (Cons fr c')
  show ?thesis
  proof (cases fr)
    case (InLeft a r)
    with C Cons have F: "a \<noteq> 0" "left_f (h a) = p" and ta: "tree_at h (right_f (h a)) a r"
      and pa: "parent_f (h a) = ctx_parent c' s"
      and sz: "int (size_f (h a)) + d = int (n + size r + 1)"
      and ca: "ctx_at h a (n + size r + 1) d c' s"
      by simp_all
    from D Cons InLeft have N: "a \<notin> set_tree r" "a \<notin> ctx_set c'" "a \<noteq> s"
      by (auto simp: ctx_set_def)
    have ha: "h' a = set_left h a b a"
      using H[of a] F Cons InLeft by (simp add: relink_def)
    have out: "h' x = h x" if "x \<in> set_tree r \<or> x \<in> ctx_set c' \<or> x = s" for x
    proof -
      from that N have "x \<noteq> a" by auto
      with H[of x] that Cons InLeft show ?thesis by simp
    qed
    have "tree_at h' (right_f (h a)) a r"
      by (rule tree_at_frame[OF ta]) (simp add: out)
    moreover have "ctx_at h' a (n + size r + 1) d c' s"
      by (rule ctx_at_frame[OF ca]) (auto simp: out)
    ultimately show ?thesis using Cons InLeft F pa sz by (simp add: ha)
  next
    case (InRight l a)
    with C Cons have F: "a \<noteq> 0" "right_f (h a) = p" and ta: "tree_at h (left_f (h a)) a l"
      and pa: "parent_f (h a) = ctx_parent c' s"
      and sz: "int (size_f (h a)) + d = int (size l + n + 1)"
      and ca: "ctx_at h a (size l + n + 1) d c' s"
      by simp_all
    from D Cons InRight have N: "a \<notin> set_tree l" "a \<notin> ctx_set c'" "a \<noteq> s"
      by (auto simp: ctx_set_def)
    from P Cons InRight have "p \<notin> set_tree l" by simp
    from tree_at_root_neq[OF ta this P(1)] have lp: "left_f (h a) \<noteq> p" by simp
    have ha: "h' a = set_right h a b a"
      using H[of a] F lp Cons InRight by (simp add: relink_def)
    have out: "h' x = h x" if "x \<in> set_tree l \<or> x \<in> ctx_set c' \<or> x = s" for x
    proof -
      from that N have "x \<noteq> a" by auto
      with H[of x] that Cons InRight show ?thesis by simp
    qed
    have "tree_at h' (left_f (h a)) a l"
      by (rule tree_at_frame[OF ta]) (simp add: out)
    moreover have "ctx_at h' a (size l + n + 1) d c' s"
      by (rule ctx_at_frame[OF ca]) (auto simp: out)
    ultimately show ?thesis using Cons InRight F pa sz by (simp add: ha)
  qed
qed

lemma ctx_at_child:
  assumes C: "ctx_at h p n d c s" and P: "p \<noteq> 0" "p \<notin> ctx_set c"
  shows "left_f (h (ctx_parent c s)) = p \<or> right_f (h (ctx_parent c s)) = p"
  using C by (cases "(c, s)" rule: ctx_parent.cases) auto

lemma ctx_at_nonnull: "ctx_at h p n d c s \<Longrightarrow> 0 \<notin> ctx_set c"
proof (induction c arbitrary: p n)
  case Nil
  then show ?case by simp
next
  case (Cons fr c)
  then show ?case
    by (cases fr) (auto dest: tree_at_nonnull)
qed

lemma ctx_parent_facts:
  assumes C: "ctx_at h a n d c s" and S: "s \<noteq> 0"
    and N: "a \<notin> ctx_set c" "a \<noteq> s"
  shows "ctx_parent c s \<noteq> 0" "ctx_parent c s \<noteq> a" "ctx_parent c s \<in> insert s (ctx_set c)"
proof -
  show "ctx_parent c s \<noteq> 0"
    using ctx_parent_cases[of c s] ctx_at_nonnull[OF C] S by metis
  show "ctx_parent c s \<noteq> a"
    using ctx_parent_cases[of c s] N by metis
  show "ctx_parent c s \<in> insert s (ctx_set c)"
    using ctx_parent_cases[of c s] by blast
qed

text \<open>One rebalancing step at node \<open>a\<close>, whose ancestors are \<open>c\<close>.\<close>

lemma balance_in_ctx:
  assumes S: "s \<noteq> 0" "parent_f (h s) = s"
    and T: "tree_at h a (ctx_parent c s) (Node l a r)"
    and C: "ctx_at h a (size (Node l a r)) d c s"
    and D: "distinct (inorder (plug c (Node l a r)))" "s \<notin> set_tree (plug c (Node l a r))"
    and B: "bal = balance_left h a \<or> bal = balance_right h a"
  shows "\<exists>h2 b t2. bal = Some (h2, b) \<and> ctx_at h2 b (size t2) d c s \<and>
     tree_at h2 b (ctx_parent c s) t2 \<and> t2 \<noteq> Leaf \<and> inorder t2 = inorder (Node l a r) \<and>
     parent_f (h2 s) = s \<and> right_f (h2 s) = right_f (h s) \<and>
     (\<forall>x. x \<notin> set_tree (plug c (Node l a r)) \<and> x \<noteq> s \<longrightarrow> h2 x = h x) \<and>
     (\<forall>x. value_f (h2 x) = value_f (h x))"
proof -
  let ?T = "Node l a r"
  let ?par = "ctx_parent c s"
  from D have d1: "distinct (inorder ?T)" and d2: "distinct (ctx_before c @ ctx_after c)"
    and d3: "set_tree ?T \<inter> ctx_set c = {}" and d4: "s \<notin> set_tree ?T" "s \<notin> ctx_set c"
    by (auto simp: inorder_plug set_tree_plug ctx_set_def)
  from T have a0: "a \<noteq> 0" by simp
  from d3 d4 have an: "a \<notin> ctx_set c" "a \<noteq> s" by auto
  note pf = ctx_parent_facts[OF C S(1) an]
  from pf(3) d3 d4 have pn: "?par \<notin> set_tree ?T" by auto
  have ch: "left_f (h ?par) = a \<or> right_f (h ?par) = a"
    by (rule ctx_at_child[OF C a0 an(1)])
  from B balance_left_correct[OF T d1 pn pf(1) ch] balance_right_correct[OF T d1 pn pf(1) ch]
  obtain h2 b t2 where bal: "bal = Some (h2, b)" and T2: "tree_at h2 b ?par t2"
    and io: "inorder t2 = inorder ?T"
    and fr: "\<And>x. x \<notin> set_tree ?T \<Longrightarrow> h2 x = relink h ?par a b x"
    and vals: "\<forall>x. value_f (h2 x) = value_f (h x)"
    by metis
  from io have sz: "size t2 = size ?T"
    by (metis length_inorder)
  from io have ne: "t2 \<noteq> Leaf" by auto
  have C2: "ctx_at h2 b (size t2) d c s"
    unfolding sz
  proof (rule ctx_at_relink[OF C a0 an(1) d2 d4(2)])
    fix x assume "x \<in> ctx_set c \<or> x = s"
    with d3 d4 have "x \<notin> set_tree ?T" by auto
    then show "h2 x = relink h ?par a b x" by (rule fr)
  qed
  have hs: "h2 s = relink h ?par a b s"
    by (rule fr[OF d4(1)])
  have ps: "parent_f (h2 s) = s"
    using S by (simp add: hs)
  have rs: "right_f (h2 s) = right_f (h s)"
  proof (cases c)
    case Nil
    with C show ?thesis by (simp add: hs relink_def)
  next
    case (Cons fr' c')
    with ctx_parent_cases[of c s] d4 have "s \<noteq> ?par" by auto
    then show ?thesis by (simp add: hs)
  qed
  have out: "\<forall>x. x \<notin> set_tree (plug c ?T) \<and> x \<noteq> s \<longrightarrow> h2 x = h x"
  proof (intro allI impI)
    fix x assume x: "x \<notin> set_tree (plug c ?T) \<and> x \<noteq> s"
    then have "x \<notin> set_tree ?T" "x \<notin> ctx_set c" "x \<noteq> s" by (auto simp: set_tree_plug)
    with pf(3) have "x \<noteq> ?par" by auto
    with fr[OF \<open>x \<notin> set_tree ?T\<close>] show "h2 x = h x" by simp
  qed
  from bal C2 T2 ne io ps rs out vals show ?thesis by blast
qed

lemma add_size_eq: "int n + d = int m \<Longrightarrow> add_size n d = m"
  by (simp add: add_size_def)

text \<open>Entering an ancestor frame: after the size update at the parent \<open>a\<close>, the subtree at
  \<open>a\<close> is well formed and the remaining ancestors are still laid out.\<close>

lemma enter_frame:
  assumes S: "s \<noteq> 0"
    and C: "ctx_at h p (size t) d (fr # c) s"
    and T: "tree_at h p (ctx_parent (fr # c) s) t" "t \<noteq> Leaf"
    and D: "distinct (inorder (plug (fr # c) t))" "s \<notin> set_tree (plug (fr # c) t)"
  defines "a \<equiv> ctx_parent (fr # c) s"
  defines "h1 \<equiv> set_size h a (add_size (size_f (h a)) d)"
  shows "\<exists>l r. plug (fr # c) t = plug c (Node l a r) \<and>
      tree_at h1 a (ctx_parent c s) (Node l a r) \<and> ctx_at h1 a (size (Node l a r)) d c s \<and>
      p \<noteq> 0 \<and> a \<noteq> 0 \<and> parent_f (h p) = a \<and> parent_f (h a) \<noteq> a"
proof -
  from T have p0: "p \<noteq> 0" and pp: "parent_f (h p) = a"
    by (cases t; simp add: a_def)+
  from T p0 have pin: "p \<in> set_tree t"
    using tree_at_root_cases by blast
  show ?thesis
  proof (cases fr)
    case (InLeft a' r)
    then have a': "a' = a" by (simp add: a_def)
    from C InLeft a' have F: "a \<noteq> 0" "left_f (h a) = p" and tr: "tree_at h (right_f (h a)) a r"
      and pa: "parent_f (h a) = ctx_parent c s"
      and sz: "int (size_f (h a)) + d = int (size t + size r + 1)"
      and ca: "ctx_at h a (size t + size r + 1) d c s"
      by simp_all
    from D InLeft a' have N: "a \<notin> set_tree t" "a \<notin> set_tree r" "a \<notin> ctx_set c" "a \<noteq> s"
      by (auto simp: inorder_plug set_tree_plug ctx_set_def)
    note pf = ctx_parent_facts[OF ca S N(3,4)]
    have t1: "tree_at h1 a (ctx_parent c s) (Node t a r)"
      using F tr pa T(1) N a' InLeft by (simp add: h1_def add_size_eq[OF sz])
    have "ctx_at h1 a (size t + size r + 1) d c s"
      by (rule ctx_at_frame[OF ca]) (use N in \<open>auto simp: h1_def set_size_def\<close>)
    then have c1: "ctx_at h1 a (size (Node t a r)) d c s"
      by simp
    from t1 c1 p0 F pp pa pf(2) InLeft a' show ?thesis
      by (intro exI[of _ t] exI[of _ r]) simp
  next
    case (InRight l a')
    then have a': "a' = a" by (simp add: a_def)
    from C InRight a' have F: "a \<noteq> 0" "right_f (h a) = p" and tl: "tree_at h (left_f (h a)) a l"
      and pa: "parent_f (h a) = ctx_parent c s"
      and sz: "int (size_f (h a)) + d = int (size l + size t + 1)"
      and ca: "ctx_at h a (size l + size t + 1) d c s"
      by simp_all
    from D InRight a' have N: "a \<notin> set_tree t" "a \<notin> set_tree l" "a \<notin> ctx_set c" "a \<noteq> s"
      by (auto simp: inorder_plug set_tree_plug ctx_set_def)
    note pf = ctx_parent_facts[OF ca S N(3,4)]
    have t1: "tree_at h1 a (ctx_parent c s) (Node l a t)"
      using F tl pa T(1) N a' InRight by (simp add: h1_def add_size_eq[OF sz])
    have "ctx_at h1 a (size l + size t + 1) d c s"
      by (rule ctx_at_frame[OF ca]) (use N in \<open>auto simp: h1_def set_size_def\<close>)
    then have c1: "ctx_at h1 a (size (Node l a t)) d c s"
      by simp
    from t1 c1 p0 F pp pa pf(2) InRight a' show ?thesis
      by (intro exI[of _ l] exI[of _ t]) simp
  qed
qed

lemma balance_above_unfold:
  assumes "p \<noteq> 0" "parent_f (h p) \<noteq> 0" "parent_f (h (parent_f (h p))) \<noteq> parent_f (h p)"
  shows "\<exists>bal. (bal = balance_left (set_size h (parent_f (h p)) (add_size (size_f (h (parent_f (h p)))) d))
              (parent_f (h p)) \<or>
            bal = balance_right (set_size h (parent_f (h p)) (add_size (size_f (h (parent_f (h p)))) d))
              (parent_f (h p))) \<and>
      balance_above h p d = bal \<bind> (\<lambda>(h2, p2). balance_above h2 p2 d)"
  using assms by (subst balance_above.simps) (auto simp: is_sentinel_def Let_def)

lemma balance_above_correct:
  assumes S: "s \<noteq> 0" "parent_f (h s) = s"
    and C: "ctx_at h p (size t) d c s"
    and T: "tree_at h p (ctx_parent c s) t" "t \<noteq> Leaf"
    and D: "distinct (inorder (plug c t))" "s \<notin> set_tree (plug c t)"
  shows "\<exists>h' t'. balance_above h p d = Some h' \<and> tree_at h' (left_f (h' s)) s t' \<and>
     inorder t' = inorder (plug c t) \<and> parent_f (h' s) = s \<and>
     right_f (h' s) = right_f (h s) \<and>
     (\<forall>x. x \<notin> set_tree (plug c t) \<and> x \<noteq> s \<longrightarrow> h' x = h x) \<and>
     (\<forall>x. value_f (h' x) = value_f (h x))"
  using assms
proof (induction c arbitrary: h p t)
  case Nil
  from Nil.prems(4,5) have "p \<noteq> 0" "parent_f (h p) = s"
    by (cases t; simp)+
  with Nil.prems(1,2) have "balance_above h p d = Some h"
    by (subst balance_above.simps) (simp add: is_sentinel_def)
  with Nil.prems show ?case
    by (intro exI[of _ h] exI[of _ t]) simp
next
  case (Cons fr c)
  define a where "a = ctx_parent (fr # c) s"
  define h1 where "h1 = set_size h a (add_size (size_f (h a)) d)"
  from enter_frame[OF Cons.prems(1,3,4,5,6,7), folded a_def, folded h1_def]
  obtain l r where pl: "plug (fr # c) t = plug c (Node l a r)"
    and t1: "tree_at h1 a (ctx_parent c s) (Node l a r)"
    and c1: "ctx_at h1 a (size (Node l a r)) d c s"
    and F: "p \<noteq> 0" "a \<noteq> 0" "parent_f (h p) = a" "parent_f (h a) \<noteq> a"
    by blast
  from balance_above_unfold[of p h d] F
  obtain bal where B: "bal = balance_left h1 a \<or> bal = balance_right h1 a"
    and ba: "balance_above h p d = bal \<bind> (\<lambda>(h2, p2). balance_above h2 p2 d)"
    unfolding h1_def by auto
  from Cons.prems(6,7) have an: "a \<noteq> s"
    by (cases fr) (auto simp: a_def set_tree_plug)
  have S1: "parent_f (h1 s) = s" "right_f (h1 s) = right_f (h s)"
    using Cons.prems(2) by (simp_all add: h1_def)
  from Cons.prems(6,7) have D1: "distinct (inorder (plug c (Node l a r)))"
    "s \<notin> set_tree (plug c (Node l a r))"
    unfolding pl by simp_all
  from balance_in_ctx[OF Cons.prems(1) S1(1) t1 c1 D1 B]
  obtain h2 b t2 where bal: "bal = Some (h2, b)" and c2: "ctx_at h2 b (size t2) d c s"
    and t2: "tree_at h2 b (ctx_parent c s) t2" "t2 \<noteq> Leaf"
    and io: "inorder t2 = inorder (Node l a r)"
    and s2: "parent_f (h2 s) = s" "right_f (h2 s) = right_f (h1 s)"
    and out2: "\<And>x. x \<notin> set_tree (plug c (Node l a r)) \<and> x \<noteq> s \<Longrightarrow> h2 x = h1 x"
    and v2: "\<And>x. value_f (h2 x) = value_f (h1 x)"
    by blast
  have io2: "inorder (plug c t2) = inorder (plug c (Node l a r))"
    by (simp add: inorder_plug io)
  then have st2: "set_tree (plug c t2) = set_tree (plug c (Node l a r))"
    by (metis set_inorder)
  from D1 have D2: "distinct (inorder (plug c t2))" "s \<notin> set_tree (plug c t2)"
    unfolding io2 st2 by simp_all
  from Cons.IH[OF Cons.prems(1) s2(1) c2 t2 D2]
  obtain h' t' where r: "balance_above h2 b d = Some h'" "tree_at h' (left_f (h' s)) s t'"
    "inorder t' = inorder (plug c t2)" "parent_f (h' s) = s" "right_f (h' s) = right_f (h2 s)"
    and out': "\<And>x. x \<notin> set_tree (plug c t2) \<and> x \<noteq> s \<Longrightarrow> h' x = h2 x"
    and v': "\<And>x. value_f (h' x) = value_f (h2 x)"
    by blast
  have "balance_above h p d = Some h'"
    by (simp add: ba bal r(1))
  moreover have "inorder t' = inorder (plug (fr # c) t)"
    by (simp add: r(3) io2 pl)
  moreover have "right_f (h' s) = right_f (h s)"
    by (simp add: r(5) s2(2) S1(2))
  moreover have "\<forall>x. x \<notin> set_tree (plug (fr # c) t) \<and> x \<noteq> s \<longrightarrow> h' x = h x"
  proof (intro allI impI)
    fix x assume x: "x \<notin> set_tree (plug (fr # c) t) \<and> x \<noteq> s"
    then have x1: "x \<notin> set_tree (plug c (Node l a r)) \<and> x \<noteq> s" by (simp add: pl)
    then have "x \<noteq> a" by (auto simp: set_tree_plug)
    then have "h1 x = h x" by (simp add: h1_def)
    with out'[of x] out2[OF x1] x1 show "h' x = h x" by (simp add: st2)
  qed
  moreover have "\<forall>x. value_f (h' x) = value_f (h x)"
    by (simp add: v' v2 h1_def)
  ultimately show ?case using r(2,4) by blast
qed

section \<open>Insertion\<close>

lemma plug_append: "plug (c1 @ c2) t = plug c2 (plug c1 t)"
  by (induction c1 t rule: plug.induct) simp_all

lemma in_tree_plug: "a \<in> set_tree t \<Longrightarrow> \<exists>c l r. t = plug c (Node l a r)"
proof (induction t)
  case Leaf
  then show ?case by simp
next
  case (Node l x r)
  consider "a = x" | "a \<in> set_tree l" | "a \<in> set_tree r"
    using Node.prems by auto
  then show ?case
  proof cases
    case 1
    then show ?thesis by (intro exI[of _ "[]"] exI[of _ l] exI[of _ r]) simp
  next
    case 2
    with Node.IH(1) obtain c l' r' where "l = plug c (Node l' a r')" by blast
    then have "Node l x r = plug (c @ [InLeft x r]) (Node l' a r')"
      by (simp add: plug_append)
    then show ?thesis by blast
  next
    case 3
    with Node.IH(2) obtain c l' r' where "r = plug c (Node l' a r')" by blast
    then have "Node l x r = plug (c @ [InRight l x]) (Node l' a r')"
      by (simp add: plug_append)
    then show ?thesis by blast
  qed
qed

lemma ctx_at_upd:
  assumes "x \<notin> ctx_set c" "x \<noteq> s"
  shows "ctx_at (h(x := v)) p n d c s = ctx_at h p n d c s"
proof
  assume "ctx_at (h(x := v)) p n d c s"
  then show "ctx_at h p n d c s"
    by (rule ctx_at_frame) (use assms in auto)
next
  assume "ctx_at h p n d c s"
  then show "ctx_at (h(x := v)) p n d c s"
    by (rule ctx_at_frame) (use assms in auto)
qed

lemma ctx_at_set [simp]:
  "x \<notin> ctx_set c \<Longrightarrow> x \<noteq> s \<Longrightarrow> ctx_at (set_left h x y) p n d c s = ctx_at h p n d c s"
  "x \<notin> ctx_set c \<Longrightarrow> x \<noteq> s \<Longrightarrow> ctx_at (set_right h x y) p n d c s = ctx_at h p n d c s"
  "x \<notin> ctx_set c \<Longrightarrow> x \<noteq> s \<Longrightarrow> ctx_at (set_parent h x y) p n d c s = ctx_at h p n d c s"
  "x \<notin> ctx_set c \<Longrightarrow> x \<noteq> s \<Longrightarrow> ctx_at (set_size h x m) p n d c s = ctx_at h p n d c s"
  by (simp_all add: upd_defs ctx_at_upd)

lemma attach_rightmost:
  assumes C: "ctx_at h q (size t) 0 c s" and T: "tree_at h q (ctx_parent c s) t" "t \<noteq> Leaf"
    and D: "distinct (inorder (plug c t))" "s \<notin> set_tree (plug c t)"
    and R: "r \<noteq> 0" "r \<noteq> s" "r \<notin> set_tree (plug c t)"
  shows "\<exists>p c'. descend_right h q = Some p \<and> p \<in> set_tree t \<and>
     ctx_at (set_parent (set_right h p r) r p) r 1 1 c' s \<and> ctx_parent c' s = p \<and>
     ctx_before c' = ctx_before c @ inorder t \<and> ctx_after c' = ctx_after c"
  using assms
proof (induction t arbitrary: q c)
  case Leaf
  then show ?case by simp
next
  case (Node l a rt)
  from Node.prems(2) have F: "q = a" "a \<noteq> 0" "parent_f (h a) = ctx_parent c s"
    "size_f (h a) = size l + size rt + 1"
    and tl: "tree_at h (left_f (h a)) a l" and tr: "tree_at h (right_f (h a)) a rt"
    by simp_all
  from Node.prems(4,5,8) have N: "a \<notin> set_tree l" "a \<notin> set_tree rt" "a \<notin> ctx_set c" "a \<noteq> s"
    "r \<noteq> a" "r \<notin> set_tree l" "r \<notin> set_tree rt" "r \<notin> ctx_set c"
    by (auto simp: inorder_plug set_tree_plug ctx_set_def)
  show ?case
  proof (cases rt)
    case Leaf
    with tr have r0: "right_f (h a) = 0" by simp
    then have dr: "descend_right h q = Some a"
      using F by (subst descend_right.simps) simp
    from Node.prems(1) Leaf have "ctx_at h a (size l + 1) 0 c s"
      by (simp add: F)
    then have "ctx_at h a (size l + 1 + 1) 1 c s"
      by (rule ctx_at_resize) simp
    then have "ctx_at (set_parent (set_right h a r) r a) r 1 1 (InRight l a # c) s"
      using F N tl Leaf Node.prems(7) by simp
    with dr Leaf show ?thesis
      by (intro exI[of _ a] exI[of _ "InRight l a # c"]) simp
  next
    case (Node rl b rr)
    with tr have r0: "right_f (h a) \<noteq> 0" by auto
    then have dr: "descend_right h q = descend_right h (right_f (h a))"
      using F by (subst descend_right.simps) simp
    have c1: "ctx_at h (right_f (h a)) (size rt) 0 (InRight l a # c) s"
      using Node.prems(1) F tl by (simp add: add.commute add.left_commute)
    have pl: "plug (InRight l a # c) rt = plug c (tree.Node l a rt)"
      by simp
    from Node.IH(2)[OF c1 _ _ Node.prems(4,5)[folded pl] Node.prems(6,7) Node.prems(8)[folded pl]] tr Node
    obtain p c' where "descend_right h (right_f (h a)) = Some p" "p \<in> set_tree rt"
      "ctx_at (set_parent (set_right h p r) r p) r 1 1 c' s" "ctx_parent c' s = p"
      "ctx_before c' = ctx_before (InRight l a # c) @ inorder rt"
      "ctx_after c' = ctx_after (InRight l a # c)"
      by auto
    with dr show ?thesis
      by (intro exI[of _ p] exI[of _ c']) simp
  qed
qed

lemma split_unique:
  "a \<notin> set xs \<Longrightarrow> a \<notin> set xs' \<Longrightarrow> xs @ a # ys = xs' @ a # ys' \<Longrightarrow> xs = xs' \<and> ys = ys'"
proof (induction xs arbitrary: xs')
  case Nil
  then show ?case by (cases xs') auto
next
  case (Cons x xs)
  then show ?case by (cases xs') auto
qed

lemma wf_tree_pos_cases:
  assumes W: "wf_tree h s t" and P: "inorder t @ [s] = xs @ pos # ys"
  shows "(pos = s \<and> xs = inorder t \<and> ys = []) \<or>
     (\<exists>c l r. t = plug c (Node l pos r) \<and> xs = ctx_before c @ inorder l \<and>
        ys = inorder r @ ctx_after c @ [s])"
proof (cases "pos = s")
  case True
  from W have "s \<notin> set (inorder t)" by (simp add: wf_tree_def)
  with P True split_unique[of s "inorder t" xs "[]" ys] show ?thesis
    by (metis (no_types, lifting) append_Nil2 butlast.simps(2) butlast_append butlast_snoc in_set_conv_decomp
        last_appendR last_snoc list.distinct(1))
next
  case False
  with P have "pos \<in> set (inorder t)"
    by (metis Un_iff empty_iff in_set_conv_decomp insert_iff list.set(1) list.simps(15) set_append)
  then obtain c l r where t: "t = plug c (Node l pos r)"
    using in_tree_plug by fastforce
  from W have d: "distinct (inorder t @ [s])" by (simp add: wf_tree_def)
  have e: "inorder t @ [s] = (ctx_before c @ inorder l) @ pos # (inorder r @ ctx_after c @ [s])"
    by (simp add: t inorder_plug)
  from d e have "pos \<notin> set (ctx_before c @ inorder l)"
    by (metis distinct_append disjoint_iff list.set_intros(1) not_distinct_conv_prefix)
  moreover from d P have "pos \<notin> set xs"
    by (metis distinct_append disjoint_iff list.set_intros(1))
  ultimately show ?thesis
    using split_unique[of pos xs "ctx_before c @ inorder l" ys "inorder r @ ctx_after c @ [s]"] P e t
    by auto
qed

lemma insert_hole:
  assumes W: "wf_tree h0 s t" and P: "inorder t @ [s] = xs @ pos # ys"
    and R: "r \<noteq> 0" "r \<noteq> s" "r \<notin> set_tree t"
    and N: "left_f (h0 r) = 0" "right_f (h0 r) = 0" "size_f (h0 r) = 1"
  shows "\<exists>h1 c'. hang_new h0 pos r = Some h1 \<and> ctx_at h1 r 1 1 c' s \<and>
     tree_at h1 r (ctx_parent c' s) (Node Leaf r Leaf) \<and>
     ctx_before c' = xs \<and> ctx_after c' @ [s] = pos # ys \<and>
     parent_f (h1 s) = s \<and> right_f (h1 s) = right_f (h0 s) \<and>
     (\<forall>x. value_f (h1 x) = value_f (h0 x)) \<and>
     (\<forall>x. x \<notin> set_tree t \<and> x \<noteq> s \<and> x \<noteq> r \<longrightarrow> h1 x = h0 x)"
proof -
  from W have S: "s \<noteq> 0" "parent_f (h0 s) = s" and ts: "tree_at h0 (left_f (h0 s)) s t"
    and D: "distinct (inorder t)" "s \<notin> set_tree t"
    by (simp_all add: wf_tree_def)
  have fin: "?thesis" if dr: "hang_new h0 pos r = Some (set_parent (set_right h0 p r) r p)"
    and c': "ctx_at (set_parent (set_right h0 p r) r p) r 1 1 c' s" "ctx_parent c' s = p"
      "ctx_before c' = xs" "ctx_after c' @ [s] = pos # ys"
    and p: "p \<in> set_tree t" for p c'
  proof -
    from p R D have "p \<noteq> r" "p \<noteq> s" by auto
    moreover from p have "\<forall>x. x \<notin> set_tree t \<and> x \<noteq> s \<and> x \<noteq> r \<longrightarrow>
        set_parent (set_right h0 p r) r p x = h0 x"
      by (auto simp: upd_defs)
    ultimately show ?thesis using dr c' N S R
      by (intro exI[of _ "set_parent (set_right h0 p r) r p"] exI[of _ c']) simp
  qed
  from wf_tree_pos_cases[OF W P] show ?thesis
  proof (elim disjE conjE exE)
    assume pos: "pos = s" and xs: "xs = inorder t" and ys: "ys = []"
    show ?thesis
    proof (cases t)
      case Leaf
      with ts have l0: "left_f (h0 s) = 0" by simp
      with pos have "hang_new h0 pos r = Some (set_parent (set_left h0 s r) r s)"
        by (simp add: hang_new_def)
      with N S R Leaf xs ys pos show ?thesis
        by (intro exI[of _ "set_parent (set_left h0 s r) r s"] exI[of _ "[]"]) simp
    next
      case (Node l a rt)
      with ts have l0: "left_f (h0 s) \<noteq> 0" by auto
      have c0: "ctx_at h0 (left_f (h0 s)) (size t) 0 [] s" by simp
      from attach_rightmost[OF c0, of r] ts Node D R
      obtain p c' where a: "descend_right h0 (left_f (h0 s)) = Some p" "p \<in> set_tree t"
        "ctx_at (set_parent (set_right h0 p r) r p) r 1 1 c' s" "ctx_parent c' s = p"
        "ctx_before c' = inorder t" "ctx_after c' = []"
        by auto
      show ?thesis
        by (rule fin[of p c']) (use a l0 pos xs ys in \<open>simp_all add: hang_new_def\<close>)
    qed
  next
    fix c l rt
    assume t: "t = plug c (Node l pos rt)" and xs: "xs = ctx_before c @ inorder l"
      and ys: "ys = inorder rt @ ctx_after c @ [s]"
    from ts[unfolded t tree_at_plug]
    have c0: "ctx_at h0 pos (size (Node l pos rt)) 0 c s"
      and t0: "tree_at h0 pos (ctx_parent c s) (Node l pos rt)"
      by auto
    from t0 have F: "pos \<noteq> 0" "parent_f (h0 pos) = ctx_parent c s"
      "size_f (h0 pos) = size l + size rt + 1"
      and tl: "tree_at h0 (left_f (h0 pos)) pos l" and tr: "tree_at h0 (right_f (h0 pos)) pos rt"
      by simp_all
    from D R have M: "pos \<notin> set_tree l" "pos \<notin> set_tree rt" "pos \<notin> ctx_set c" "pos \<noteq> s"
      "r \<noteq> pos" "r \<notin> set_tree l" "r \<notin> set_tree rt" "r \<notin> ctx_set c"
      unfolding t by (auto simp: inorder_plug set_tree_plug ctx_set_def)
    show ?thesis
    proof (cases l)
      case Leaf
      with tl have l0: "left_f (h0 pos) = 0" by simp
      then have hn: "hang_new h0 pos r = Some (set_parent (set_left h0 pos r) r pos)"
        by (simp add: hang_new_def)
      from c0 Leaf have "ctx_at h0 pos (size rt + 1) 0 c s" by simp
      then have "ctx_at h0 pos (1 + size rt + 1) 1 c s"
        by (rule ctx_at_resize) simp
      then have "ctx_at (set_parent (set_left h0 pos r) r pos) r 1 1 (InLeft pos rt # c) s"
        using F M tr Leaf R by simp
      moreover have "\<forall>x. x \<notin> set_tree t \<and> x \<noteq> s \<and> x \<noteq> r \<longrightarrow>
          set_parent (set_left h0 pos r) r pos x = h0 x"
        unfolding t by (auto simp: set_tree_plug)
      ultimately show ?thesis
        using hn N S R M Leaf xs ys
        by (intro exI[of _ "set_parent (set_left h0 pos r) r pos"] exI[of _ "InLeft pos rt # c"])
          simp
    next
      case (Node ll a lr)
      with tl have l0: "left_f (h0 pos) \<noteq> 0" by auto
      have c1: "ctx_at h0 (left_f (h0 pos)) (size l) 0 (InLeft pos rt # c) s"
        using c0 F tr by simp
      have pl: "plug (InLeft pos rt # c) l = t"
        by (simp add: t)
      from attach_rightmost[OF c1, of r] tl Node D R pl
      obtain p c' where a: "descend_right h0 (left_f (h0 pos)) = Some p" "p \<in> set_tree l"
        "ctx_at (set_parent (set_right h0 p r) r p) r 1 1 c' s" "ctx_parent c' s = p"
        "ctx_before c' = ctx_before (InLeft pos rt # c) @ inorder l"
        "ctx_after c' = ctx_after (InLeft pos rt # c)"
        by auto
      show ?thesis
        by (rule fin[of p c']) (use a l0 xs ys t in \<open>simp_all add: hang_new_def set_tree_plug\<close>)
    qed
  qed
qed

lemma insert_before_self_correct:
  assumes W: "wf_tree h s t" and P: "inorder t @ [s] = xs @ pos # ys"
    and R: "r \<noteq> 0" "r \<noteq> s" "r \<notin> set_tree t"
  shows "\<exists>h' t'. insert_before_self h pos v r = Some (h', r) \<and> wf_tree h' s t' \<and>
     inorder t' @ [s] = xs @ r # pos # ys \<and> value_f (h' r) = v \<and>
     (\<forall>x. x \<noteq> r \<longrightarrow> value_f (h' x) = value_f (h x)) \<and>
     (\<forall>x. x \<notin> set_tree t \<and> x \<noteq> s \<and> x \<noteq> r \<longrightarrow> h' x = h x)"
proof -
  define h0 where "h0 = new_node h r v"
  have h0: "\<And>x. x \<noteq> r \<Longrightarrow> h0 x = h x" "left_f (h0 r) = 0" "right_f (h0 r) = 0"
    "size_f (h0 r) = 1" "value_f (h0 r) = v"
    by (simp_all add: h0_def new_node_def)
  from W have S: "s \<noteq> 0" "right_f (h s) = 0" and D: "distinct (inorder t)" "s \<notin> set_tree t"
    by (simp_all add: wf_tree_def)
  have "tree_at h0 (left_f (h s)) s t"
  proof (rule tree_at_frame[of h _ _ t h0])
    show "tree_at h (left_f (h s)) s t" using W by (simp add: wf_tree_def)
    fix x assume "x \<in> set_tree t"
    with R have "x \<noteq> r" by auto
    then show "h0 x = h x" by (rule h0(1))
  qed
  then have W0: "wf_tree h0 s t"
    using W R h0(1)[of s] unfolding wf_tree_def by simp
  from wf_tree_pos_cases[OF W P] S tree_at_nonnull[of h "left_f (h s)" s t] W
  have pos0: "pos \<noteq> 0"
    by (auto simp: wf_tree_def set_tree_plug)
  from insert_hole[OF W0 P R h0(2,3,4)]
  obtain h1 c' where hn: "hang_new h0 pos r = Some h1" and c1: "ctx_at h1 r 1 1 c' s"
    and t1: "tree_at h1 r (ctx_parent c' s) (Node Leaf r Leaf)"
    and l1: "ctx_before c' = xs" "ctx_after c' @ [s] = pos # ys"
    and s1: "parent_f (h1 s) = s" "right_f (h1 s) = right_f (h0 s)"
    and v1: "\<And>x. value_f (h1 x) = value_f (h0 x)"
    and o1: "\<And>x. x \<notin> set_tree t \<and> x \<noteq> s \<and> x \<noteq> r \<Longrightarrow> h1 x = h0 x"
    by blast
  have io: "inorder (plug c' (Node Leaf r Leaf)) @ [s] = xs @ r # pos # ys"
    using l1 by (simp add: inorder_plug)
  have dP: "distinct (xs @ pos # ys)"
    using D unfolding P[symmetric] by simp
  have rP: "r \<notin> set (xs @ pos # ys)"
    unfolding P[symmetric] using R by simp
  from dP rP have "distinct (xs @ r # pos # ys)" by auto
  then have "distinct (inorder (plug c' (Node Leaf r Leaf)) @ [s])"
    by (simp only: io)
  then have D1: "distinct (inorder (plug c' (Node Leaf r Leaf)))"
    "s \<notin> set_tree (plug c' (Node Leaf r Leaf))"
    by simp_all
  from balance_above_correct[OF S(1) s1(1) _ t1 _ D1, of 1] c1
  obtain h' t' where b: "balance_above h1 r 1 = Some h'" "tree_at h' (left_f (h' s)) s t'"
    "inorder t' = inorder (plug c' (Node Leaf r Leaf))" "parent_f (h' s) = s"
    "right_f (h' s) = right_f (h1 s)"
    and o': "\<And>x. x \<notin> set_tree (plug c' (Node Leaf r Leaf)) \<and> x \<noteq> s \<Longrightarrow> h' x = h1 x"
    and v': "\<And>x. value_f (h' x) = value_f (h1 x)"
    by auto
  have "insert_before_self h pos v r = Some (h', r)"
    using pos0 R(1) hn b(1) unfolding insert_before_self_def hang_new_def h0_def[symmetric]
    by (simp add: Let_def)
  moreover have "wf_tree h' s t'"
    using S b D1 s1 h0(1)[of s] R(2) unfolding wf_tree_def
    by (simp add: b(3)[symmetric] set_inorder[symmetric] del: set_inorder)
  moreover have st: "set_tree (plug c' (Node Leaf r Leaf)) = insert r (set_tree t)"
  proof -
    have "set (inorder (plug c' (Node Leaf r Leaf)) @ [s]) = insert r (set (inorder t @ [s]))"
      unfolding io P by auto
    moreover have "r \<in> set_tree (plug c' (Node Leaf r Leaf))"
      by (simp add: set_tree_plug)
    ultimately show ?thesis using D1(2) D(2) R(2) by auto
  qed
  moreover have "\<forall>x. x \<notin> set_tree t \<and> x \<noteq> s \<and> x \<noteq> r \<longrightarrow> h' x = h x"
    using o' o1 h0(1) st by auto
  ultimately show ?thesis
    using io b(3) v' v1 h0 by (intro exI[of _ h'] exI[of _ t']) simp
qed

section \<open>Inorder traversal\<close>

lemma descend_left_hd:
  "tree_at h q par t \<Longrightarrow> t \<noteq> Leaf \<Longrightarrow> descend_left h q = Some (hd (inorder t))"
proof (induction t arbitrary: q par)
  case Leaf
  then show ?case by simp
next
  case (Node l a r)
  then have F: "q = a" "a \<noteq> 0" and tl: "tree_at h (left_f (h a)) a l" by simp_all
  show ?case
  proof (cases l)
    case Leaf
    with tl F show ?thesis by (subst descend_left.simps) simp
  next
    case (Node ll b lr)
    with tl have "left_f (h a) \<noteq> 0" by auto
    with F Node.IH(1)[OF tl] Node show ?thesis
      by (subst descend_left.simps) (simp add: hd_append)
  qed
qed

lemma descend_right_last:
  "tree_at h q par t \<Longrightarrow> t \<noteq> Leaf \<Longrightarrow> descend_right h q = Some (last (inorder t))"
proof (induction t arbitrary: q par)
  case Leaf
  then show ?case by simp
next
  case (Node l a r)
  then have F: "q = a" "a \<noteq> 0" and tr: "tree_at h (right_f (h a)) a r" by simp_all
  show ?case
  proof (cases r)
    case Leaf
    with tr F show ?thesis by (subst descend_right.simps) simp
  next
    case (Node rl b rr)
    with tr have "right_f (h a) \<noteq> 0" by auto
    with F Node.IH(2)[OF tr] Node show ?thesis
      by (subst descend_right.simps) simp
  qed
qed

lemma ascend_from_right_ctx:
  assumes "s \<noteq> 0" "parent_f (h s) = s"
    and "ctx_at h p n d c s" "p \<noteq> 0" "parent_f (h p) = ctx_parent c s"
    and "distinct (ctx_before c @ ctx_after c)" "s \<notin> ctx_set c" "p \<notin> ctx_set c"
  shows "\<exists>q. ascend_from_right h p = Some q \<and> parent_f (h q) = hd (ctx_after c @ [s])"
  using assms(3-)
proof (induction c arbitrary: p n)
  case Nil
  with assms(1,2) show ?case
    by (subst ascend_from_right.simps) (simp add: is_sentinel_def)
next
  case (Cons fr c)
  show ?case
  proof (cases fr)
    case (InLeft a r)
    with Cons.prems have F: "a \<noteq> 0" "parent_f (h p) = a" "p \<notin> set_tree r"
      and tr: "tree_at h (right_f (h a)) a r"
      by simp_all
    from tree_at_root_neq[OF tr F(3) Cons.prems(2)] have "p \<noteq> right_f (h a)" by simp
    with F InLeft Cons.prems(2) show ?thesis
      by (subst ascend_from_right.simps) simp
  next
    case (InRight l a)
    with Cons.prems have F: "a \<noteq> 0" "parent_f (h p) = a" "right_f (h a) = p"
      "parent_f (h a) = ctx_parent c s" and ca: "ctx_at h a (size l + n + 1) d c s"
      and N: "a \<notin> ctx_set c" "a \<noteq> s" "distinct (ctx_before c @ ctx_after c)" "s \<notin> ctx_set c"
      by (auto simp: ctx_set_def)
    note pf = ctx_parent_facts[OF ca assms(1) N(1,2)]
    from Cons.IH[OF ca F(1,4) N(3,4,1)]
    obtain q where "ascend_from_right h a = Some q" "parent_f (h q) = hd (ctx_after c @ [s])"
      by blast
    with F pf Cons.prems(2) InRight show ?thesis
      by (subst ascend_from_right.simps) (simp add: is_sentinel_def)
  qed
qed

lemma ascend_from_left_ctx:
  assumes "s \<noteq> 0" "parent_f (h s) = s"
    and "ctx_at h p n d c s" "p \<noteq> 0" "parent_f (h p) = ctx_parent c s"
    and "distinct (ctx_before c @ ctx_after c)" "s \<notin> ctx_set c" "p \<notin> ctx_set c"
  shows "\<exists>q. ascend_from_left h p = Some q \<and> parent_f (h q) = last (s # ctx_before c)"
  using assms(3-)
proof (induction c arbitrary: p n)
  case Nil
  with assms(1,2) show ?case
    by (subst ascend_from_left.simps) (simp add: is_sentinel_def)
next
  case (Cons fr c)
  show ?case
  proof (cases fr)
    case (InRight l a)
    with Cons.prems have F: "a \<noteq> 0" "parent_f (h p) = a" "p \<notin> set_tree l"
      and tl: "tree_at h (left_f (h a)) a l"
      by simp_all
    from tree_at_root_neq[OF tl F(3) Cons.prems(2)] have "p \<noteq> left_f (h a)" by simp
    with F InRight Cons.prems(2) show ?thesis
      by (subst ascend_from_left.simps) simp
  next
    case (InLeft a r)
    with Cons.prems have F: "a \<noteq> 0" "parent_f (h p) = a" "left_f (h a) = p"
      "parent_f (h a) = ctx_parent c s" and ca: "ctx_at h a (n + size r + 1) d c s"
      and N: "a \<notin> ctx_set c" "a \<noteq> s" "distinct (ctx_before c @ ctx_after c)" "s \<notin> ctx_set c"
      by (auto simp: ctx_set_def)
    note pf = ctx_parent_facts[OF ca assms(1) N(1,2)]
    from Cons.IH[OF ca F(1,4) N(3,4,1)]
    obtain q where "ascend_from_left h a = Some q" "parent_f (h q) = last (s # ctx_before c)"
      by blast
    with F pf Cons.prems(2) InLeft show ?thesis
      by (subst ascend_from_left.simps) (simp add: is_sentinel_def)
  qed
qed

text \<open>A real node, its subtrees and its ancestors.\<close>

lemma wf_tree_node:
  assumes W: "wf_tree h s (plug c (Node l a r))"
  shows "ctx_at h a (size (Node l a r)) 0 c s" "tree_at h a (ctx_parent c s) (Node l a r)"
    "distinct (ctx_before c @ ctx_after c)" "s \<notin> ctx_set c" "a \<notin> ctx_set c" "a \<noteq> s"
    "s \<noteq> 0" "parent_f (h s) = s"
proof -
  from W have ts: "tree_at h (left_f (h s)) s (plug c (Node l a r))"
    and D: "distinct (inorder (plug c (Node l a r)))" "s \<notin> set_tree (plug c (Node l a r))"
    and S: "s \<noteq> 0" "parent_f (h s) = s"
    by (simp_all add: wf_tree_def)
  from ts[unfolded tree_at_plug]
  show "ctx_at h a (size (Node l a r)) 0 c s" "tree_at h a (ctx_parent c s) (Node l a r)"
    by auto
  from D show "distinct (ctx_before c @ ctx_after c)" "s \<notin> ctx_set c" "a \<notin> ctx_set c" "a \<noteq> s"
    by (auto simp: inorder_plug set_tree_plug ctx_set_def)
  from S show "s \<noteq> 0" "parent_f (h s) = s" .
qed

lemma inorder_successor_correct:
  assumes W: "wf_tree h s t" and P: "inorder t @ [s] = xs @ a # b # ys"
  shows "inorder_successor h a = Some b"
proof -
  from wf_tree_pos_cases[OF W P]
  obtain c l r where t: "t = plug c (Node l a r)" and ys: "b # ys = inorder r @ ctx_after c @ [s]"
    by auto
  note n = wf_tree_node[OF W[unfolded t]]
  from n(2) have F: "a \<noteq> 0" "parent_f (h a) = ctx_parent c s"
    and tr: "tree_at h (right_f (h a)) a r"
    by simp_all
  show ?thesis
  proof (cases r)
    case Leaf
    with tr have r0: "right_f (h a) = 0" by simp
    have "hd (ctx_after c @ [s]) = b"
      using arg_cong[OF ys, of hd] Leaf by simp
    with ascend_from_right_ctx[OF n(7,8,1) F n(3,4,5)]
    obtain q where "ascend_from_right h a = Some q" "parent_f (h q) = b"
      by auto
    with F r0 show ?thesis by (simp add: inorder_successor_def)
  next
    case (Node rl x rr)
    with tr have r0: "right_f (h a) \<noteq> 0" by auto
    have "hd (inorder r) = b"
      using arg_cong[OF ys, of hd] Node by (simp add: hd_append)
    with descend_left_hd[OF tr] Node have "descend_left h (right_f (h a)) = Some b"
      by simp
    with F r0 show ?thesis by (simp add: inorder_successor_def)
  qed
qed

lemma inorder_successor_end:
  assumes W: "wf_tree h s t"
  shows "inorder_successor h s = Some s"
proof -
  from W have "s \<noteq> 0" "parent_f (h s) = s" "right_f (h s) = 0"
    by (simp_all add: wf_tree_def)
  moreover from this have "ascend_from_right h s = Some s"
    by (subst ascend_from_right.simps) (simp add: is_sentinel_def)
  ultimately show ?thesis by (simp add: inorder_successor_def)
qed

lemma inorder_predecessor_correct:
  assumes W: "wf_tree h s t" and P: "s # inorder t = xs @ a # b # ys"
  shows "inorder_predecessor h b = Some a"
proof -
  from P have "inorder t @ [s] = (tl (xs @ [a])) @ b # (ys @ [s])"
    by (cases xs) auto
  from wf_tree_pos_cases[OF W this] P
  obtain c l r where t: "t = plug c (Node l b r)" and xs: "tl (xs @ [a]) = ctx_before c @ inorder l"
    by (cases xs) auto
  note n = wf_tree_node[OF W[unfolded t]]
  from n(2) have F: "b \<noteq> 0" "parent_f (h b) = ctx_parent c s"
    and tl: "tree_at h (left_f (h b)) b l"
    by simp_all
  have la: "last (s # ctx_before c @ inorder l) = a"
  proof (cases xs)
    case Nil
    with xs P show ?thesis by simp
  next
    case (Cons x xs')
    with xs have "ctx_before c @ inorder l = xs' @ [a]" by simp
    then show ?thesis by (simp del: append_is_Nil_conv)
  qed
  show ?thesis
  proof (cases l)
    case Leaf
    with tl have l0: "left_f (h b) = 0" by simp
    from la Leaf have "last (s # ctx_before c) = a" by simp
    with ascend_from_left_ctx[OF n(7,8,1) F n(3,4,5)]
    obtain q where "ascend_from_left h b = Some q" "parent_f (h q) = a"
      by auto
    with F l0 show ?thesis by (simp add: inorder_predecessor_def)
  next
    case (Node ll x lr)
    with tl have l0: "left_f (h b) \<noteq> 0" by auto
    from la Node have "last (inorder l) = a" by simp
    with descend_right_last[OF tl] Node have "descend_right h (left_f (h b)) = Some a"
      by simp
    with F l0 show ?thesis by (simp add: inorder_predecessor_def)
  qed
qed

lemma inorder_predecessor_end:
  assumes W: "wf_tree h s t"
  shows "inorder_predecessor h s = Some (last (s # inorder t))"
proof -
  from W have S: "s \<noteq> 0" "parent_f (h s) = s" and ts: "tree_at h (left_f (h s)) s t"
    by (simp_all add: wf_tree_def)
  show ?thesis
  proof (cases t)
    case Leaf
    with ts have "left_f (h s) = 0" by simp
    moreover from S have "ascend_from_left h s = Some s"
      by (subst ascend_from_left.simps) (simp add: is_sentinel_def)
    ultimately show ?thesis using S Leaf by (simp add: inorder_predecessor_def)
  next
    case (Node l a r)
    with ts have "left_f (h s) \<noteq> 0" by auto
    with descend_right_last[OF ts] Node S show ?thesis
      by (simp add: inorder_predecessor_def)
  qed
qed

section \<open>Removal\<close>

lemma balance_then_above:
  assumes S: "s \<noteq> 0" "parent_f (h s) = s"
    and T: "tree_at h a (ctx_parent c s) (Node l a r)"
    and C: "ctx_at h a (size (Node l a r)) d c s"
    and D: "distinct (inorder (plug c (Node l a r)))" "s \<notin> set_tree (plug c (Node l a r))"
    and B: "bal = balance_left h a \<or> bal = balance_right h a"
  shows "\<exists>h' t'. bal \<bind> (\<lambda>(h2, p2). balance_above h2 p2 d) = Some h' \<and>
     tree_at h' (left_f (h' s)) s t' \<and> inorder t' = inorder (plug c (Node l a r)) \<and>
     parent_f (h' s) = s \<and> right_f (h' s) = right_f (h s) \<and>
     (\<forall>x. x \<notin> set_tree (plug c (Node l a r)) \<and> x \<noteq> s \<longrightarrow> h' x = h x) \<and>
     (\<forall>x. value_f (h' x) = value_f (h x))"
proof -
  from balance_in_ctx[OF S T C D B]
  obtain h2 b t2 where bal: "bal = Some (h2, b)" and c2: "ctx_at h2 b (size t2) d c s"
    and t2: "tree_at h2 b (ctx_parent c s) t2" "t2 \<noteq> Leaf"
    and io: "inorder t2 = inorder (Node l a r)"
    and s2: "parent_f (h2 s) = s" "right_f (h2 s) = right_f (h s)"
    and out2: "\<And>x. x \<notin> set_tree (plug c (Node l a r)) \<and> x \<noteq> s \<Longrightarrow> h2 x = h x"
    and v2: "\<And>x. value_f (h2 x) = value_f (h x)"
    by blast
  have io2: "inorder (plug c t2) = inorder (plug c (Node l a r))"
    by (simp add: inorder_plug io)
  then have st2: "set_tree (plug c t2) = set_tree (plug c (Node l a r))"
    by (metis set_inorder)
  from D have D2: "distinct (inorder (plug c t2))" "s \<notin> set_tree (plug c t2)"
    unfolding io2 st2 by simp_all
  from balance_above_correct[OF S(1) s2(1) c2 t2 D2]
  obtain h' t' where r: "balance_above h2 b d = Some h'" "tree_at h' (left_f (h' s)) s t'"
    "inorder t' = inorder (plug c t2)" "parent_f (h' s) = s" "right_f (h' s) = right_f (h2 s)"
    and out': "\<And>x. x \<notin> set_tree (plug c t2) \<and> x \<noteq> s \<Longrightarrow> h' x = h2 x"
    and v': "\<And>x. value_f (h' x) = value_f (h2 x)"
    by blast
  have "bal \<bind> (\<lambda>(h2, p2). balance_above h2 p2 d) = Some h'"
    by (simp add: bal r(1))
  moreover have "\<forall>x. x \<notin> set_tree (plug c (Node l a r)) \<and> x \<noteq> s \<longrightarrow> h' x = h x"
    using out' out2 by (simp add: st2)
  ultimately show ?thesis
    using r(2,3,4,5) io2 s2(2) v' v2 by (intro exI[of _ h'] exI[of _ t']) simp
qed

lemma erase_self_one_child_unfold:
  assumes "a \<noteq> 0" "parent_f (h a) = par" "par \<noteq> 0"
    and "left_f (h a) = 0 \<or> right_f (h a) = 0"
    and "p = (if left_f (h a) = 0 then right_f (h a) else left_f (h a))"
    and "p \<noteq> a" "p \<noteq> par" "par \<noteq> a"
    and "h2 = (if p \<noteq> 0 then set_parent (set_size h par (size_f (h par) - 1)) p par
               else set_size h par (size_f (h par) - 1))"
  shows "erase_self h a =
     (if a = left_f (h par) then
        (if parent_f (h par) \<noteq> par then
           balance_left (set_left h2 par p) par \<bind> (\<lambda>(h4, p'). balance_above h4 p' (- 1))
         else Some (set_left h2 par p))
      else balance_right (set_right h2 par p) par \<bind> (\<lambda>(h4, p'). balance_above h4 p' (- 1)))"
proof -
  have neq: "left_f (h par) \<noteq> a \<Longrightarrow> a \<noteq> left_f (h par)" by simp
  show ?thesis
    using assms(1-8) unfolding assms(9) erase_self_def
    by (cases "left_f (h a) = 0"; cases "p = 0"; cases "left_f (h par) = a")
      (simp_all add: Let_def is_sentinel_def neq)
qed

lemma erase_one_child:
  assumes W: "wf_tree h s (plug c (Node l a r))" and K: "l = Leaf \<or> r = Leaf"
  shows "\<exists>h' t'. erase_self h a = Some h' \<and> wf_tree h' s t' \<and>
     inorder t' = ctx_before c @ inorder l @ inorder r @ ctx_after c \<and>
     (\<forall>x. value_f (h' x) = value_f (h x)) \<and>
     (\<forall>x. x \<notin> set_tree (plug c (Node l a r)) \<and> x \<noteq> s \<longrightarrow> h' x = h x)"
proof -
  note n = wf_tree_node[OF W]
  let ?par = "ctx_parent c s"
  from W have rs: "right_f (h s) = 0" and D: "distinct (inorder (plug c (Node l a r)))"
    "s \<notin> set_tree (plug c (Node l a r))"
    by (simp_all add: wf_tree_def)
  from n(2) have F: "a \<noteq> 0" "parent_f (h a) = ?par" "size_f (h a) = size l + size r + 1"
    and tl: "tree_at h (left_f (h a)) a l" and tr: "tree_at h (right_f (h a)) a r"
    by simp_all
  from D have N: "a \<notin> set_tree l" "a \<notin> set_tree r" "distinct (inorder l)" "distinct (inorder r)"
    "set_tree l \<inter> ctx_set c = {}" "set_tree r \<inter> ctx_set c = {}" "s \<notin> set_tree l" "s \<notin> set_tree r"
    by (auto simp: inorder_plug set_tree_plug ctx_set_def)
  note pf = ctx_parent_facts[OF n(1,7,5,6)]
  define k where "k = (if l = Leaf then r else l)"
  define p where "p = (if left_f (h a) = 0 then right_f (h a) else left_f (h a))"
  define h2 where "h2 = (if p \<noteq> 0 then set_parent (set_size h ?par (size_f (h ?par) - 1)) p ?par
               else set_size h ?par (size_f (h ?par) - 1))"
  have z: "left_f (h a) = 0 \<or> right_f (h a) = 0"
    using K tl tr by auto
  have tk: "tree_at h p a k"
    using K tl tr unfolding k_def p_def by (cases l) auto
  have ik: "inorder k = inorder l @ inorder r" "size k = size l + size r"
    using K by (auto simp: k_def)
  have kn: "a \<notin> set_tree k" "distinct (inorder k)" "set_tree k \<inter> ctx_set c = {}" "s \<notin> set_tree k"
    using N by (auto simp: k_def)
  from pf(3) kn have pk: "?par \<notin> set_tree k" by auto
  have pa: "p \<noteq> a" "p \<noteq> ?par"
    using tree_at_root_neq[OF tk kn(1) F(1)] tree_at_root_neq[OF tk pk pf(1)] by simp_all
  note unf = erase_self_one_child_unfold[OF F(1,2) pf(1) z p_def pa pf(2) h2_def]
  have v2: "\<And>x. value_f (h2 x) = value_f (h x)"
    by (simp add: h2_def)
  have t2: "tree_at h2 p ?par k"
  proof (cases "p = 0")
    case True
    with tk show ?thesis by simp
  next
    case False
    have "tree_at (set_size h ?par (size_f (h ?par) - 1)) p a k"
      using tk pk by simp
    from tree_at_set_parent_root[OF kn(2) this] False show ?thesis
      by (simp add: h2_def)
  qed
  have o2: "h2 x = h x" if "x \<noteq> ?par" "x \<notin> set_tree k" for x
  proof -
    from that tree_at_root_cases[OF tk] have "p = 0 \<or> x \<noteq> p" by auto
    with that show ?thesis by (auto simp: h2_def)
  qed
  show ?thesis
  proof (cases c)
    case Nil
    with n(1) have la: "left_f (h s) = a" by simp
    from Nil have par: "?par = s" by simp
    have e: "erase_self h a = Some (set_left h2 s p)"
      using unf la n(8) by (simp add: par)
    have "tree_at (set_left h2 s p) p s k"
      using t2 kn(4) by (simp add: par)
    then have "wf_tree (set_left h2 s p) s k"
      using n(7,8) rs kn by (simp add: wf_tree_def h2_def par)
    moreover have "\<forall>x. x \<notin> set_tree (plug c (Node l a r)) \<and> x \<noteq> s \<longrightarrow> set_left h2 s p x = h x"
      using o2 ik by (auto simp: par set_tree_plug Nil k_def)
    ultimately show ?thesis
      using e ik v2 Nil by (intro exI[of _ "set_left h2 s p"] exI[of _ k]) simp
  next
    case (Cons fr c')
    define T1 where "T1 = (case fr of InLeft b rb \<Rightarrow> Node k b rb | InRight lb b \<Rightarrow> Node lb b k)"
    define h3 where "h3 = (case fr of InLeft b rb \<Rightarrow> set_left h2 b p | InRight lb b \<Rightarrow> set_right h2 b p)"
    have par: "?par = (case fr of InLeft b rb \<Rightarrow> b | InRight lb b \<Rightarrow> b)"
      by (simp add: Cons split: frame.split)
    have "\<exists>l1 r1. T1 = Node l1 ?par r1 \<and>
      plug c' T1 = plug c k \<and>
      tree_at h3 ?par (ctx_parent c' s) T1 \<and> ctx_at h3 ?par (size T1) (- 1) c' s \<and>
      (\<exists>bal. (bal = balance_left h3 ?par \<or> bal = balance_right h3 ?par) \<and>
         erase_self h a = bal \<bind> (\<lambda>(h4, p'). balance_above h4 p' (- 1))) \<and>
      parent_f (h3 s) = s \<and> right_f (h3 s) = 0 \<and>
      (\<forall>x. value_f (h3 x) = value_f (h x)) \<and>
      (\<forall>x. x \<notin> set_tree (plug c (Node l a r)) \<and> x \<noteq> s \<longrightarrow> h3 x = h x)"
    proof (cases fr)
      case (InLeft b rb)
      with n(1) Cons have G: "b \<noteq> 0" "left_f (h b) = a" "parent_f (h b) = ctx_parent c' s"
        "int (size_f (h b)) = int (size l + size r + 1 + size rb + 1)"
        and trb: "tree_at h (right_f (h b)) b rb"
        and cb: "ctx_at h b (size l + size r + 1 + size rb + 1) 0 c' s"
        by simp_all
      from n(3,4) Cons InLeft kn(3) pk par have M: "b \<notin> set_tree rb" "b \<notin> ctx_set c'" "b \<noteq> s"
        "b \<notin> set_tree k" "set_tree k \<inter> set_tree rb = {}" "set_tree k \<inter> ctx_set c' = {}"
        by (auto simp: ctx_set_def)
      note pfb = ctx_parent_facts[OF cb n(7) M(2,3)]
      have bp: "?par = b" by (simp add: Cons InLeft)
      have prb: "p = 0 \<or> p \<notin> set_tree rb" "p = 0 \<or> p \<notin> ctx_set c'" "p = 0 \<or> p \<noteq> s"
        using tree_at_root_cases[OF tk] M(5,6) kn(4) by auto
      have h3: "h3 = set_left h2 b p" by (simp add: h3_def InLeft)
      have "tree_at h3 b (ctx_parent c' s) (Node k b rb)"
        using G trb t2 M pa prb bp by (auto simp: h3 h2_def ik)
      moreover have "ctx_at h b (size (Node k b rb)) (- 1) c' s"
        by (rule ctx_at_resize[OF cb]) (simp add: ik)
      then have "ctx_at h3 b (size (Node k b rb)) (- 1) c' s"
        using M prb by (auto simp: h3 h2_def bp)
      moreover have "erase_self h a =
          balance_left h3 b \<bind> (\<lambda>(h4, p'). balance_above h4 p' (- 1))"
        using unf G pfb(2) by (simp add: bp h3)
      moreover have "\<forall>x. x \<notin> set_tree (plug c (Node l a r)) \<and> x \<noteq> s \<longrightarrow> h3 x = h x"
        using o2 by (auto simp: h3 bp set_tree_plug Cons InLeft k_def)
      moreover have "parent_f (h3 s) = s" "right_f (h3 s) = 0"
        using n(8) rs M(3) prb(3) by (auto simp: h3 h2_def bp)
      ultimately show ?thesis
        using v2 by (simp add: T1_def InLeft bp Cons h3) blast
    next
      case (InRight lb b)
      with n(1) Cons have G: "b \<noteq> 0" "right_f (h b) = a" "parent_f (h b) = ctx_parent c' s"
        "int (size_f (h b)) = int (size lb + (size l + size r + 1) + 1)"
        and tlb: "tree_at h (left_f (h b)) b lb"
        and cb: "ctx_at h b (size lb + (size l + size r + 1) + 1) 0 c' s"
        by simp_all
      from n(3,4,5) Cons InRight kn(3) pk par have M: "b \<notin> set_tree lb" "b \<notin> ctx_set c'" "b \<noteq> s"
        "b \<notin> set_tree k" "set_tree k \<inter> set_tree lb = {}" "set_tree k \<inter> ctx_set c' = {}"
        "a \<notin> set_tree lb"
        by (auto simp: ctx_set_def)
      note pfb = ctx_parent_facts[OF cb n(7) M(2,3)]
      have bp: "?par = b" by (simp add: Cons InRight)
      have prb: "p = 0 \<or> p \<notin> set_tree lb" "p = 0 \<or> p \<notin> ctx_set c'" "p = 0 \<or> p \<noteq> s"
        using tree_at_root_cases[OF tk] M(5,6) kn(4) by auto
      from tree_at_root_neq[OF tlb M(7) F(1)] have la: "a \<noteq> left_f (h b)" by simp
      have h3: "h3 = set_right h2 b p" by (simp add: h3_def InRight)
      have "tree_at h3 b (ctx_parent c' s) (Node lb b k)"
        using G tlb t2 M pa prb bp by (auto simp: h3 h2_def ik)
      moreover have "ctx_at h b (size (Node lb b k)) (- 1) c' s"
        by (rule ctx_at_resize[OF cb]) (simp add: ik)
      then have "ctx_at h3 b (size (Node lb b k)) (- 1) c' s"
        using M prb by (auto simp: h3 h2_def bp)
      moreover have "erase_self h a =
          balance_right h3 b \<bind> (\<lambda>(h4, p'). balance_above h4 p' (- 1))"
        using unf G la by (simp add: bp h3)
      moreover have "\<forall>x. x \<notin> set_tree (plug c (Node l a r)) \<and> x \<noteq> s \<longrightarrow> h3 x = h x"
        using o2 by (auto simp: h3 bp set_tree_plug Cons InRight k_def)
      moreover have "parent_f (h3 s) = s" "right_f (h3 s) = 0"
        using n(8) rs M(3) prb(3) by (auto simp: h3 h2_def bp)
      ultimately show ?thesis
        using v2 by (simp add: T1_def InRight bp Cons h3) blast
    qed
    then obtain l1 r1 bal where T1: "T1 = Node l1 ?par r1" and pl: "plug c' T1 = plug c k"
      and t3: "tree_at h3 ?par (ctx_parent c' s) T1" and c3: "ctx_at h3 ?par (size T1) (- 1) c' s"
      and B: "bal = balance_left h3 ?par \<or> bal = balance_right h3 ?par"
      and e: "erase_self h a = bal \<bind> (\<lambda>(h4, p'). balance_above h4 p' (- 1))"
      and s3: "parent_f (h3 s) = s" "right_f (h3 s) = 0"
      and v3: "\<And>x. value_f (h3 x) = value_f (h x)"
      and o3: "\<And>x. x \<notin> set_tree (plug c (Node l a r)) \<and> x \<noteq> s \<Longrightarrow> h3 x = h x"
      by blast
    have io: "inorder (plug c k) = ctx_before c @ inorder l @ inorder r @ ctx_after c"
      by (simp add: inorder_plug ik)
    have sub: "set_tree (plug c k) \<subseteq> set_tree (plug c (Node l a r))"
      by (auto simp: set_tree_plug k_def)
    from D have D1: "distinct (inorder (plug c' T1))" "s \<notin> set_tree (plug c' T1)"
      unfolding pl using sub by (auto simp: inorder_plug ik)
    from balance_then_above[OF n(7) s3(1) t3[unfolded T1] c3[unfolded T1] D1[unfolded T1] B[unfolded T1]]
    obtain h' t' where r: "bal \<bind> (\<lambda>(h2, p2). balance_above h2 p2 (- 1)) = Some h'"
      "tree_at h' (left_f (h' s)) s t'" "inorder t' = inorder (plug c' T1)"
      "parent_f (h' s) = s" "right_f (h' s) = right_f (h3 s)"
      and o': "\<And>x. x \<notin> set_tree (plug c' T1) \<and> x \<noteq> s \<Longrightarrow> h' x = h3 x"
      and v': "\<And>x. value_f (h' x) = value_f (h3 x)"
      unfolding T1[symmetric] by blast
    have "wf_tree h' s t'"
      using r(2,3,4,5) s3 D1 n(7) unfolding wf_tree_def
      by (simp add: set_inorder[symmetric] del: set_inorder)
    moreover have "\<forall>x. x \<notin> set_tree (plug c (Node l a r)) \<and> x \<noteq> s \<longrightarrow> h' x = h x"
    proof (intro allI impI)
      fix x assume x: "x \<notin> set_tree (plug c (Node l a r)) \<and> x \<noteq> s"
      with sub have "x \<notin> set_tree (plug c' T1) \<and> x \<noteq> s" unfolding pl by auto
      from o'[OF this] o3[OF x] show "h' x = h x" by simp
    qed
    ultimately show ?thesis
      using e r(1,3) io pl v' v3 by (intro exI[of _ h'] exI[of _ t']) simp
  qed
qed

lemma erase_self_near_unfold:
  assumes "a \<noteq> 0" "parent_f (h a) = par" "par \<noteq> 0" "left_f (h a) = pl" "pl \<noteq> 0"
    "right_f (h a) = p" "p \<noteq> 0" "inorder_successor h a = Some p" "parent_f (h p) \<noteq> 0"
    and "p \<noteq> a" "a \<noteq> p" "pl \<noteq> a" "a \<noteq> pl" "par \<noteq> a" "a \<noteq> par" "p \<noteq> par" "par \<noteq> p" "pl \<noteq> p" "p \<noteq> pl"
  shows "erase_self h a =
     balance_right
       (set_size (set_parent (set_left (set_parent (relink h par a p) p par) p pl) pl p) p
          (size_f (h a) - 1)) p
     \<bind> (\<lambda>(h5, p'). balance_above h5 p' (- 1))"
  using assms
  by (simp add: erase_self_def Let_def replace_self_def slot_set_owner[of h a par])

lemma erase_self_far_unfold:
  assumes "a \<noteq> 0" "parent_f (h a) = par" "par \<noteq> 0" "left_f (h a) = pl" "pl \<noteq> 0"
    "right_f (h a) = pr" "pr \<noteq> 0" "inorder_successor h a = Some p" "p \<noteq> 0"
    "parent_f (h p) = q" "q \<noteq> 0" "right_f (h p) = p2"
    and "p \<noteq> pr" "pr \<noteq> p"
    and "p \<noteq> a" "a \<noteq> p" "pl \<noteq> a" "a \<noteq> pl" "par \<noteq> a" "a \<noteq> par" "p \<noteq> par" "par \<noteq> p" "pl \<noteq> p" "p \<noteq> pl"
      "q \<noteq> a" "a \<noteq> q" "q \<noteq> p" "p \<noteq> q" "q \<noteq> par" "par \<noteq> q" "q \<noteq> pl" "pl \<noteq> q"
      "p2 \<noteq> a" "a \<noteq> p2" "p2 \<noteq> p" "p \<noteq> p2" "pr \<noteq> a" "a \<noteq> pr" "pl \<noteq> pr" "pr \<noteq> pl"
      "pr \<noteq> par" "par \<noteq> pr" "p2 \<noteq> par" "par \<noteq> p2" "p2 \<noteq> pl" "pl \<noteq> p2"
    and "h2 = (if p2 \<noteq> 0 then set_parent (set_left h q p2) p2 q else set_left h q p2)"
  shows "erase_self h a =
     balance_left
       (set_size (set_size (set_parent (relink
          (set_parent (set_left (set_parent (set_right h2 p pr) pr p) p pl) pl p)
          par a p) p par) p (size_f (h a))) q (size_f (h q) - 1)) q
     \<bind> (\<lambda>(h10, q'). balance_above h10 q' (- 1))"
proof (cases "p2 = 0")
  case True
  with assms show ?thesis
    apply (simp add: erase_self_def Let_def replace_self_def)
    apply (subst slot_set_owner[where par=par])
    apply simp_all
    done
next
  case False
  with assms show ?thesis
    apply (simp add: erase_self_def Let_def replace_self_def)
    apply (subst slot_set_owner[where par=par])
    apply simp_all
    done
qed

lemma erase_two_children_near:
  assumes W: "wf_tree h s (plug c (Node l a (Node Leaf p r2)))" and L: "l \<noteq> Leaf"
  shows "\<exists>h' t'. erase_self h a = Some h' \<and> wf_tree h' s t' \<and>
     inorder t' = ctx_before c @ inorder l @ p # inorder r2 @ ctx_after c \<and>
     (\<forall>x. value_f (h' x) = value_f (h x)) \<and>
     (\<forall>x. x \<notin> set_tree (plug c (Node l a (Node Leaf p r2))) \<and> x \<noteq> s \<longrightarrow> h' x = h x)"
proof -
  let ?T = "Node l a (Node Leaf p r2)"
  let ?par = "ctx_parent c s"
  note n = wf_tree_node[OF W]
  from W have rs: "right_f (h s) = 0" and D: "distinct (inorder (plug c ?T))"
    "s \<notin> set_tree (plug c ?T)"
    by (simp_all add: wf_tree_def)
  define pl where "pl = left_f (h a)"
  define p2 where "p2 = right_f (h p)"
  from n(2) have F: "a \<noteq> 0" "parent_f (h a) = ?par" "size_f (h a) = size l + size r2 + 2"
    "right_f (h a) = p" "p \<noteq> 0" "parent_f (h p) = a" "left_f (h p) = 0"
    "size_f (h p) = size r2 + 1"
    and tl: "tree_at h pl a l" and tr: "tree_at h (right_f (h a)) a (Node Leaf p r2)"
    and t2: "tree_at h p2 p r2"
    by (simp_all add: pl_def p2_def)
  from D have N: "a \<notin> set_tree l" "a \<notin> set_tree r2" "p \<notin> set_tree l" "p \<notin> set_tree r2"
    "a \<noteq> p" "p \<noteq> a" "distinct (inorder l)" "distinct (inorder r2)"
    "p \<notin> ctx_set c" "p \<noteq> s" "s \<notin> set_tree l" "s \<notin> set_tree r2"
    "set_tree l \<inter> ctx_set c = {}" "set_tree r2 \<inter> ctx_set c = {}" "set_tree l \<inter> set_tree r2 = {}"
    by (auto simp: inorder_plug set_tree_plug ctx_set_def)
  note pf = ctx_parent_facts[OF n(1,7,5,6)]
  from pf(3) N have pn: "?par \<notin> set_tree l" "?par \<notin> set_tree r2" "?par \<noteq> p" "p \<noteq> ?par"
    by auto
  from L tl have pl0: "pl \<noteq> 0" by (cases l) auto
  with tree_at_root_cases[OF tl] have plin: "pl \<in> set_tree l" by simp
  with N pn n(5) have Q: "pl \<noteq> a" "a \<noteq> pl" "pl \<noteq> p" "p \<noteq> pl" "pl \<noteq> ?par" "?par \<noteq> pl"
    "pl \<notin> set_tree r2" "pl \<notin> ctx_set c" "pl \<noteq> s"
    by auto
  have R2: "p2 \<noteq> a" "p2 \<noteq> p" "p2 \<noteq> ?par"
    using tree_at_root_neq[OF t2 N(2) F(1)] tree_at_root_neq[OF t2 N(4) F(5)]
      tree_at_root_neq[OF t2 pn(2) pf(1)] by simp_all
  have p2l: "p2 = 0 \<or> p2 \<notin> set_tree l"
    using tree_at_root_cases[OF t2] N(15) by auto
  have su: "inorder_successor h a = Some p"
    using descend_left_hd[OF tr] F by (simp add: inorder_successor_def)
  define h4 where "h4 = set_size (set_parent (set_left (set_parent (relink h ?par a p) p ?par) p pl) pl p) p
          (size_f (h a) - 1)"
  have e: "erase_self h a = balance_right h4 p \<bind> (\<lambda>(h5, p'). balance_above h5 p' (- 1))"
    unfolding h4_def
    by (rule erase_self_near_unfold)
      (simp_all add: F pf pf(2)[symmetric] pl0 su Q N(5,6) pn pl_def[symmetric])
  have rp: "right_f (h4 p) = p2"
    using pn by (simp add: h4_def p2_def)
  have "tree_at (set_left (set_parent (relink h ?par a p) p ?par) p pl) pl a l"
    using tl by (simp add: N pn)
  from tree_at_set_parent_root[OF N(7) this, of p] have t4l: "tree_at h4 pl p l"
    by (simp add: h4_def N)
  have t4r: "tree_at h4 p2 p r2"
    using t2 by (simp add: h4_def N pn Q)
  have t4: "tree_at h4 p ?par (Node l p r2)"
    using t4l t4r rp by (simp add: h4_def Q F)
  have "ctx_at h a (size (Node l p r2)) (- 1) c s"
    by (rule ctx_at_resize[OF n(1)]) simp
  then have c4: "ctx_at h4 p (size (Node l p r2)) (- 1) c s"
  proof (rule ctx_at_relink[OF _ F(1) n(5,3,4)])
    fix x assume "x \<in> ctx_set c \<or> x = s"
    with N Q have "x \<noteq> p" "x \<noteq> pl" by auto
    then show "h4 x = relink h ?par a p x" by (simp add: h4_def)
  qed
  have s4: "parent_f (h4 s) = s"
    using n(8) N Q by (simp add: h4_def)
  have r4: "right_f (h4 s) = 0"
  proof (cases c)
    case Nil
    with n(1) have "left_f (h s) = a" by simp
    with Nil rs N Q show ?thesis by (simp add: h4_def relink_def)
  next
    case (Cons fr c')
    with ctx_parent_cases[of c s] n(4) have "s \<noteq> ?par" by auto
    with rs N Q show ?thesis by (simp add: h4_def)
  qed
  have v4: "\<And>x. value_f (h4 x) = value_f (h x)"
    by (simp add: h4_def)
  have o4: "h4 x = h x" if "x \<notin> set_tree (plug c ?T) \<and> x \<noteq> s" for x
  proof -
    from that plin pf(3) have "x \<noteq> p" "x \<noteq> pl" "x \<noteq> ?par"
      by (auto simp: set_tree_plug)
    then show ?thesis by (simp add: h4_def)
  qed
  have sub: "set_tree (plug c (Node l p r2)) \<subseteq> set_tree (plug c ?T)"
    by (auto simp: set_tree_plug)
  from D have D1: "distinct (inorder (plug c (Node l p r2)))" "s \<notin> set_tree (plug c (Node l p r2))"
    by (auto simp: inorder_plug set_tree_plug)
  from balance_then_above[OF n(7) s4 t4 c4 D1, of "balance_right h4 p"]
  obtain h' t' where r: "balance_right h4 p \<bind> (\<lambda>(h2, p2). balance_above h2 p2 (- 1)) = Some h'"
    "tree_at h' (left_f (h' s)) s t'" "inorder t' = inorder (plug c (Node l p r2))"
    "parent_f (h' s) = s" "right_f (h' s) = right_f (h4 s)"
    and o': "\<And>x. x \<notin> set_tree (plug c (Node l p r2)) \<and> x \<noteq> s \<Longrightarrow> h' x = h4 x"
    and v': "\<And>x. value_f (h' x) = value_f (h4 x)"
    by blast
  have "wf_tree h' s t'"
    using r(2,3,4,5) r4 D1 n(7) unfolding wf_tree_def
    by (simp add: set_inorder[symmetric] del: set_inorder)
  moreover have "\<forall>x. x \<notin> set_tree (plug c ?T) \<and> x \<noteq> s \<longrightarrow> h' x = h x"
  proof (intro allI impI)
    fix x assume x: "x \<notin> set_tree (plug c ?T) \<and> x \<noteq> s"
    with sub have "x \<notin> set_tree (plug c (Node l p r2)) \<and> x \<noteq> s" by auto
    from o'[OF this] o4[OF x] show "h' x = h x" by simp
  qed
  ultimately show ?thesis
    using e r(1,3) v' v4 by (intro exI[of _ h'] exI[of _ t']) (simp add: inorder_plug)
qed

lemma size_plug: "size (plug c t) = ctx_size c (size t)"
  by (induction c t rule: plug.induct) simp_all

lemma ctx_size_add: "ctx_size c (n + m) = ctx_size c n + m"
  by (induction c n rule: ctx_size.induct) (simp_all add: add.assoc add.left_commute add.commute)

lemma ctx_top_cases: "ctx_top c p = p \<and> c = [] \<or> ctx_top c p \<in> ctx_set c \<and> c \<noteq> []"
  by (induction c p rule: ctx_top.induct) auto

lemma ctx_parent_Cons: "ctx_parent (fr # c) tp = ctx_parent (fr # c) tp'"
  by (cases fr) simp_all

lemma ctx_before_append: "ctx_before (c1 @ c2) = ctx_before c2 @ ctx_before c1"
  by (induction c1 rule: ctx_before.induct) simp_all

lemma ctx_after_append: "ctx_after (c1 @ c2) = ctx_after c1 @ ctx_after c2"
  by (induction c1 rule: ctx_after.induct) simp_all

lemma ctx_parent_append: "ctx_parent (c1 @ c2) tp = ctx_parent c1 (ctx_parent c2 tp)"
  by (cases "(c1, tp)" rule: ctx_parent.cases) simp_all

lemma ctx_at_seg: "ctx_at h p n d c s = (seg_at h p n d c s \<and> left_f (h s) = ctx_top c p)"
  by (induction h p n d c s rule: ctx_at.induct) auto

lemma seg_at_append:
  "seg_at h p n d (c1 @ c2) tp =
     (seg_at h p n d c1 (ctx_parent c2 tp) \<and> seg_at h (ctx_top c1 p) (ctx_size c1 n) d c2 tp)"
  by (induction h p n d c1 "ctx_parent c2 tp" rule: seg_at.induct)
    (auto simp: ctx_parent_append)

lemma ctx_top_append: "ctx_top (c1 @ c2) p = ctx_top c2 (ctx_top c1 p)"
  by (induction c1 p rule: ctx_top.induct) simp_all

lemma ctx_at_append:
  "ctx_at h p n d (c1 @ c2) s =
     (seg_at h p n d c1 (ctx_parent c2 s) \<and> ctx_at h (ctx_top c1 p) (ctx_size c1 n) d c2 s)"
  by (auto simp: ctx_at_seg seg_at_append ctx_top_append)

lemma seg_at_resize:
  "seg_at h p n d c tp \<Longrightarrow> int n' - d' = int n - d \<Longrightarrow> seg_at h p n' d' c tp"
proof (induction c arbitrary: p n n')
  case Nil
  then show ?case by simp
next
  case (Cons fr c)
  show ?case
  proof (cases fr)
    case (InLeft a r)
    with Cons.prems have "seg_at h a (n' + size r + 1) d' c tp"
      by (intro Cons.IH[of a "n + size r + 1"]) simp_all
    with Cons.prems InLeft show ?thesis by simp
  next
    case (InRight l a)
    with Cons.prems have "seg_at h a (size l + n' + 1) d' c tp"
      by (intro Cons.IH[of a "size l + n + 1"]) simp_all
    with Cons.prems InRight show ?thesis by simp
  qed
qed

text \<open>Moving a path below another node: only the \<^verbatim>\<open>parent_\<close> of its topmost node changes.\<close>

lemma seg_at_retop:
  assumes "seg_at h p n d c tp" "distinct (ctx_before c @ ctx_after c)"
    and "\<And>x. x \<in> ctx_set c \<Longrightarrow> x \<noteq> ctx_top c p \<Longrightarrow> h' x = h x"
    and "c \<noteq> [] \<Longrightarrow> h' (ctx_top c p) = (h (ctx_top c p))\<lparr>parent_f := tp'\<rparr>"
  shows "seg_at h' p n d c tp'"
  using assms
proof (induction c arbitrary: p n)
  case Nil
  then show ?case by simp
next
  case (Cons fr c)
  obtain a k where fr: "fr = InLeft a k \<or> fr = InRight k a"
    by (cases fr) auto
  then have top: "ctx_top (fr # c) p = ctx_top c a" by auto
  from fr Cons.prems(2) have N: "a \<notin> set_tree k" "a \<notin> ctx_set c"
    "distinct (ctx_before c @ ctx_after c)"
    by (auto simp: ctx_set_def)
  from fr Cons.prems(1) have tk: "tree_at h (if fr = InLeft a k then right_f (h a) else left_f (h a)) a k"
    and sa: "seg_at h a (size k + n + 1) d c tp"
    by (auto simp: add.commute)
  have kk: "h' x = h x" if "x \<in> set_tree k" for x
  proof -
    from that fr Cons.prems(2) have "x \<notin> ctx_set c" "x \<noteq> a" by (auto simp: ctx_set_def)
    with ctx_top_cases[of c a] have "x \<noteq> ctx_top c a" by auto
    with Cons.prems(3)[of x] that fr top show ?thesis by auto
  qed
  have tk': "tree_at h' (if fr = InLeft a k then right_f (h a) else left_f (h a)) a k"
    by (rule tree_at_frame[OF tk kk])
  show ?case
  proof (cases c)
    case Nil
    with Cons.prems(4) top have ha: "h' a = (h a)\<lparr>parent_f := tp'\<rparr>" by simp
    with fr Cons.prems(1) tk' Nil show ?thesis by auto
  next
    case c: (Cons fr' c')
    with ctx_top_cases[of c a] N have na: "ctx_top c a \<noteq> a" by auto
    have ha: "h' a = h a"
      using Cons.prems(3)[of a] fr na top by auto
    have "seg_at h' a (size k + n + 1) d c tp'"
    proof (rule Cons.IH[OF sa N(3)])
      fix x assume "x \<in> ctx_set c" "x \<noteq> ctx_top c a"
      with Cons.prems(3)[of x] fr top show "h' x = h x" by auto
    next
      assume "c \<noteq> []"
      with Cons.prems(4) top show "h' (ctx_top c a) = (h (ctx_top c a))\<lparr>parent_f := tp'\<rparr>"
        by simp
    qed
    with fr Cons.prems(1) tk' ha c ctx_parent_Cons[of fr' c' tp tp'] show ?thesis
      by (auto simp: add.commute)
  qed
qed

lemma leftmost_plug:
  "t \<noteq> Leaf \<Longrightarrow> \<exists>cin r2. t = plug cin (Node Leaf (hd (inorder t)) r2) \<and> ctx_before cin = []"
proof (induction t)
  case Leaf
  then show ?case by simp
next
  case (Node l a r)
  show ?case
  proof (cases l)
    case Leaf
    then show ?thesis
      by (intro exI[of _ "[]"] exI[of _ r]) simp
  next
    case l: (Node ll b lr)
    with Node.IH(1) obtain cin r2 where "l = plug cin (Node Leaf (hd (inorder l)) r2)"
      "ctx_before cin = []"
      by auto
    moreover from l have "hd (inorder (Node l a r)) = hd (inorder l)"
      by (simp add: hd_append)
    ultimately show ?thesis
      by (intro exI[of _ "cin @ [InLeft a r]"] exI[of _ r2])
        (simp add: plug_append ctx_before_append del: inorder.simps)
  qed
qed

lemma erase_two_children_far:
  assumes W: "wf_tree h s (plug c (Node l a (plug (InLeft q rq # cin) (Node Leaf p r2))))"
    and L: "l \<noteq> Leaf" and B: "ctx_before cin = []"
  shows "\<exists>h' t'. erase_self h a = Some h' \<and> wf_tree h' s t' \<and>
     inorder t' = ctx_before c @ inorder l @
        inorder (plug (InLeft q rq # cin) (Node Leaf p r2)) @ ctx_after c \<and>
     (\<forall>x. value_f (h' x) = value_f (h x)) \<and>
     (\<forall>x. x \<notin> set_tree (plug c (Node l a (plug (InLeft q rq # cin) (Node Leaf p r2)))) \<and> x \<noteq> s
        \<longrightarrow> h' x = h x)"
proof -
  let ?Tp = "Node Leaf p r2"
  let ?r = "plug (InLeft q rq # cin) ?Tp"
  let ?T = "Node l a ?r"
  let ?par = "ctx_parent c s"
  let ?Ca = "InLeft q rq # cin @ InRight l a # c"
  let ?Tq = "Node r2 q rq"
  let ?C = "cin @ InRight l p # c"
  have pl0: "plug c ?T = plug ?Ca ?Tp"
    by (simp add: plug_append)
  note n = wf_tree_node[OF W]
  note m = wf_tree_node[OF W[unfolded pl0]]
  from W have rs: "right_f (h s) = 0" and D: "distinct (inorder (plug c ?T))"
    "s \<notin> set_tree (plug c ?T)"
    by (simp_all add: wf_tree_def)
  define pl where "pl = left_f (h a)"
  define pr where "pr = ctx_top cin q"
  define p2 where "p2 = right_f (h p)"
  define nq where "nq = size r2 + 1 + size rq + 1"
  have ir: "inorder ?r = p # inorder r2 @ q # inorder rq @ ctx_after cin"
    by (simp add: inorder_plug B)
  have sr: "set_tree ?r = insert p (insert q (set_tree r2 \<union> set_tree rq \<union> ctx_set cin))"
    using arg_cong[OF ir, of set] by (auto simp: ctx_set_def B)
  have szr: "size ?r = ctx_size cin nq"
    by (simp add: size_plug nq_def)
  from n(2) have F: "a \<noteq> 0" "parent_f (h a) = ?par" "size_f (h a) = size l + size ?r + 1"
    and tl: "tree_at h pl a l"
    by (simp_all add: pl_def)
  from m(2) have G: "p \<noteq> 0" "parent_f (h p) = q" "left_f (h p) = 0"
    and t2: "tree_at h p2 p r2"
    by (simp_all add: p2_def)
  from m(1) have Q: "q \<noteq> 0" "left_f (h q) = p" "parent_f (h q) = ctx_parent (cin @ InRight l a # c) s"
    "size_f (h q) = nq" and trq: "tree_at h (right_f (h q)) q rq"
    and cq: "ctx_at h q nq 0 (cin @ InRight l a # c) s"
    by (simp_all add: nq_def)
  from cq[unfolded ctx_at_append] have sg: "seg_at h q nq 0 cin a"
    and ra: "right_f (h a) = pr" and ca: "ctx_at h a (size l + ctx_size cin nq + 1) 0 c s"
    by (simp_all add: pr_def)
  have fl: "inorder (plug c ?T) @ [s] =
      ctx_before c @ inorder l @ a # p # inorder r2 @ q # inorder rq @ ctx_after cin @
        ctx_after c @ [s]"
    by (simp add: inorder_plug B)
  from D have "distinct (inorder (plug c ?T) @ [s])"
    by simp
  then have Dfl: "distinct (ctx_before c @ inorder l @ a # p # inorder r2 @ q # inorder rq @
      ctx_after cin @ ctx_after c @ [s])"
    by (simp only: fl)
  from Dfl have N0: "distinct (inorder l)" "distinct (inorder r2)" "distinct (inorder rq)"
    "distinct (ctx_after cin)" "distinct (ctx_before c @ ctx_after c)"
    and N1: "a \<noteq> p" "a \<noteq> q" "p \<noteq> q" "p \<noteq> a" "q \<noteq> a" "q \<noteq> p" "a \<noteq> s" "p \<noteq> s" "q \<noteq> s"
    and N2: "a \<notin> set_tree l" "a \<notin> set_tree r2" "a \<notin> set_tree rq" "a \<notin> ctx_set cin" "a \<notin> ctx_set c"
    and N3: "p \<notin> set_tree l" "p \<notin> set_tree r2" "p \<notin> set_tree rq" "p \<notin> ctx_set cin" "p \<notin> ctx_set c"
    and N4: "q \<notin> set_tree l" "q \<notin> set_tree r2" "q \<notin> set_tree rq" "q \<notin> ctx_set cin" "q \<notin> ctx_set c"
    and N5: "s \<notin> set_tree l" "s \<notin> set_tree r2" "s \<notin> set_tree rq" "s \<notin> ctx_set cin" "s \<notin> ctx_set c"
    and N6: "set_tree l \<inter> set_tree r2 = {}" "set_tree l \<inter> set_tree rq = {}"
    "set_tree l \<inter> ctx_set cin = {}" "set_tree l \<inter> ctx_set c = {}"
    "set_tree r2 \<inter> set_tree rq = {}" "set_tree r2 \<inter> ctx_set cin = {}" "set_tree r2 \<inter> ctx_set c = {}"
    "set_tree rq \<inter> ctx_set cin = {}" "set_tree rq \<inter> ctx_set c = {}" "ctx_set cin \<inter> ctx_set c = {}"
    by (simp_all add: ctx_set_def B Int_Un_distrib Int_Un_distrib2 Int_commute)
  note pf = ctx_parent_facts[OF n(1,7,5,6)]
  from pf(3) N5 N6 have pn: "?par \<notin> set_tree l" "?par \<notin> set_tree r2" "?par \<notin> set_tree rq"
    "?par \<notin> ctx_set cin"
    by auto
  from pf(3) N1 N3 N4 have pn2: "?par \<noteq> p" "p \<noteq> ?par" "?par \<noteq> q" "q \<noteq> ?par" "a \<noteq> ?par"
    using pf(2) by auto
  from L tl have plz: "pl \<noteq> 0" by (cases l) auto
  with tree_at_root_cases[OF tl] have plin: "pl \<in> set_tree l" by simp
  have PL: "pl \<noteq> a" "a \<noteq> pl" "pl \<noteq> p" "p \<noteq> pl" "pl \<noteq> q" "q \<noteq> pl" "pl \<noteq> ?par" "?par \<noteq> pl"
    "pl \<noteq> s" "pl \<notin> set_tree r2" "pl \<notin> set_tree rq" "pl \<notin> ctx_set cin" "pl \<notin> ctx_set c"
    using plin N2(1) N3(1) N4(1) pn(1) N5(1) N6(1,2,3,4) by auto
  have prc: "pr = q \<and> cin = [] \<or> pr \<in> ctx_set cin \<and> cin \<noteq> []"
    unfolding pr_def by (rule ctx_top_cases)
  have z0: "0 \<notin> ctx_set cin"
    using ctx_at_nonnull[OF cq] by (simp add: ctx_set_def ctx_before_append ctx_after_append)
  have PR: "pr \<noteq> 0" "pr \<noteq> a" "a \<noteq> pr" "pr \<noteq> p" "p \<noteq> pr" "pr \<noteq> pl" "pl \<noteq> pr" "pr \<noteq> ?par"
    "?par \<noteq> pr" "pr \<noteq> s" "pr \<notin> set_tree l" "pr \<notin> set_tree r2" "pr \<notin> ctx_set c"
    "pr \<notin> set_tree rq"
  proof -
    have "(pr \<noteq> 0 \<and> pr \<noteq> a \<and> a \<noteq> pr \<and> pr \<noteq> p \<and> p \<noteq> pr \<and> pr \<noteq> pl \<and> pl \<noteq> pr \<and> pr \<noteq> ?par \<and>
      ?par \<noteq> pr \<and> pr \<noteq> s) \<and> (pr \<notin> set_tree l \<and> pr \<notin> set_tree r2 \<and> pr \<notin> ctx_set c \<and>
      pr \<notin> set_tree rq)"
    proof (cases "cin = []")
      case True
      with prc z0 have "pr = q" by auto
      then show ?thesis
        by (simp add: Q(1) N1 N4 pn2 PL)
    next
      case False
      with prc have i: "pr \<in> ctx_set cin" by auto
      have ne: "pr \<noteq> y \<and> y \<noteq> pr" if "y \<notin> ctx_set cin" for y
        using i that by auto
      have dj: "pr \<notin> A" if "A \<inter> ctx_set cin = {}" for A
        using i that by auto
      from ne[OF z0] ne[OF N2(4)] ne[OF N3(4)] ne[OF PL(12)] ne[OF pn(4)] ne[OF N5(4)]
        dj[OF N6(3)] dj[OF N6(6)] dj[OF N6(8)] dj[of "ctx_set c"] N6(10)
      show ?thesis by (simp add: Int_commute)
    qed
    then show "pr \<noteq> 0" "pr \<noteq> a" "a \<noteq> pr" "pr \<noteq> p" "p \<noteq> pr" "pr \<noteq> pl" "pl \<noteq> pr" "pr \<noteq> ?par"
      "?par \<noteq> pr" "pr \<noteq> s" "pr \<notin> set_tree l" "pr \<notin> set_tree r2" "pr \<notin> ctx_set c"
      "pr \<notin> set_tree rq"
      by simp_all
  qed
  have P2: "p2 \<noteq> a" "a \<noteq> p2" "p2 \<noteq> p" "p \<noteq> p2" "p2 \<noteq> q" "q \<noteq> p2" "p2 \<noteq> ?par" "?par \<noteq> p2"
    "p2 \<noteq> pl" "pl \<noteq> p2"
    using tree_at_root_neq[OF t2 N2(2) F(1)] tree_at_root_neq[OF t2 N3(2) G(1)]
      tree_at_root_neq[OF t2 N4(2) Q(1)] tree_at_root_neq[OF t2 pn(2) pf(1)]
      tree_at_root_neq[OF t2 PL(10) plz] by simp_all
  have p2c: "p2 = 0 \<or> p2 \<in> set_tree r2"
    by (rule tree_at_root_cases[OF t2])
  have P2s: "p2 = 0 \<or> (p2 \<notin> set_tree l \<and> p2 \<notin> set_tree rq \<and> p2 \<notin> ctx_set cin \<and>
      p2 \<notin> ctx_set c \<and> p2 \<noteq> s \<and> p2 \<noteq> pr)"
    using p2c N6 N5(2) PR(12) by auto
  have su: "inorder_successor h a = Some p"
  proof -
    from n(2) have "tree_at h (right_f (h a)) a ?r" by simp
    moreover have "?r \<noteq> Leaf" using ir by auto
    ultimately have "descend_left h (right_f (h a)) = Some p"
      using descend_left_hd[of h "right_f (h a)" a ?r] by (simp add: ir del: plug.simps)
    with F ra PR show ?thesis by (simp add: inorder_successor_def)
  qed
  define h2 where "h2 = (if p2 \<noteq> 0 then set_parent (set_left h q p2) p2 q else set_left h q p2)"
  define H where "H = set_size (set_size (set_parent (relink
          (set_parent (set_left (set_parent (set_right h2 p pr) pr p) p pl) pl p)
          ?par a p) p ?par) p (size_f (h a))) q (size_f (h q) - 1)"
  have e: "erase_self h a = balance_left H q \<bind> (\<lambda>(h10, q'). balance_above h10 q' (- 1))"
    unfolding H_def
    by (rule erase_self_far_unfold[where pl=pl and ?p2.0=p2])
      (simp_all add: F G Q pf pl_def[symmetric] p2_def[symmetric] ra su plz PR N1 pn2 PL P2 h2_def)
  have vH: "\<And>x. value_f (H x) = value_f (h x)"
    by (simp add: H_def h2_def)
  have oH: "H x = h x" if "x \<noteq> a" "x \<noteq> p" "x \<noteq> q" "x \<noteq> ?par" "x \<noteq> pl" "x \<noteq> pr"
    "p2 = 0 \<or> x \<noteq> p2" for x
    using that by (cases "p2 = 0") (simp_all add: H_def h2_def)
  have Hp: "left_f (H p) = pl" "right_f (H p) = pr" "parent_f (H p) = ?par"
    "size_f (H p) = size_f (h a)"
    by (simp_all add: H_def N1 pn2 PL)
  have Hq: "left_f (H q) = p2" "right_f (H q) = right_f (h q)" "size_f (H q) = nq - 1"
    "parent_f (H q) = (if cin = [] then p else parent_f (h q))"
  proof -
    have qpr: "cin \<noteq> [] \<Longrightarrow> pr \<noteq> q" "cin = [] \<Longrightarrow> pr = q"
      using prc N4(4) by auto
    show "left_f (H q) = p2" "right_f (H q) = right_f (h q)" "size_f (H q) = nq - 1"
      by (simp_all add: H_def h2_def N1 pn2 PL PR Q P2 relink_def)
    show "parent_f (H q) = (if cin = [] then p else parent_f (h q))"
      using qpr by (cases "cin = []") (simp_all add: H_def h2_def N1 pn2 PL PR Q P2)
  qed
  have Hpar: "\<And>x. x \<in> ctx_set c \<or> x = s \<Longrightarrow> H x = relink h ?par a p x"
  proof -
    fix x assume "x \<in> ctx_set c \<or> x = s"
    with N1 N2 N3 N4 PL PR P2s have "x \<noteq> a" "x \<noteq> p" "x \<noteq> q" "x \<noteq> pl" "x \<noteq> pr" "p2 = 0 \<or> x \<noteq> p2"
      by auto
    then show "H x = relink h ?par a p x"
      by (cases "x = ?par") (auto simp: H_def h2_def pn2 PL PR P2 relink_def)
  qed
  have tHl: "tree_at H pl p l"
  proof -
    have "tree_at (set_left (set_parent (set_right h2 p pr) pr p) p pl) pl a l"
      using tl P2s by (auto simp: h2_def N3 N4 PR)
    from tree_at_set_parent_root[OF N0(1) this, of p] show ?thesis
      by (simp add: H_def N3 N4 pn relink_def)
  qed
  have tH2: "tree_at H p2 q r2"
  proof (cases "p2 = 0")
    case True
    with t2 show ?thesis by simp
  next
    case False
    have "tree_at (set_left h q p2) p2 p r2"
      using t2 by (simp add: N4)
    from tree_at_set_parent_root[OF N0(2) this, of q] False show ?thesis
      by (simp add: H_def h2_def N3 N4 pn PR PL relink_def)
  qed
  have tHq: "tree_at H (right_f (h q)) q rq"
    using trq P2s by (auto simp: H_def h2_def N3 N4 pn PR PL relink_def)
  have cpar: "ctx_parent ?C s = (if cin = [] then p else parent_f (h q))"
  proof (cases cin)
    case Nil
    then show ?thesis by simp
  next
    case (Cons fr cin')
    with Q(3) show ?thesis by (cases fr) simp_all
  qed
  have t1: "tree_at H q (ctx_parent ?C s) ?Tq"
    using tH2 tHq Hq Q(1) by (simp add: cpar nq_def)
  have sg1: "seg_at h q (nq - 1) (- 1) cin a"
    by (rule seg_at_resize[OF sg]) (simp add: nq_def)
  have sgH: "seg_at H q (nq - 1) (- 1) cin p"
  proof (rule seg_at_retop[OF sg1])
    show "distinct (ctx_before cin @ ctx_after cin)" using N0(4) B by simp
  next
    fix x assume x: "x \<in> ctx_set cin" "x \<noteq> ctx_top cin q"
    from z0 x P2s have "x \<noteq> p2" by auto
    moreover from x N2(4) N3(4) N4(4) pn(4) PL(12) have "x \<noteq> a" "x \<noteq> p" "x \<noteq> q" "x \<noteq> ?par" "x \<noteq> pl"
      by auto
    ultimately show "H x = h x"
      using x(2) by (intro oH) (simp_all add: pr_def)
  next
    assume "cin \<noteq> []"
    with prc have "pr \<in> ctx_set cin" "pr \<noteq> q" using N4 by auto
    with P2s have "pr \<noteq> p2" using PR(1) by auto
    with \<open>pr \<noteq> q\<close> show "H (ctx_top cin q) = (h (ctx_top cin q))\<lparr>parent_f := p\<rparr>"
      by (simp add: H_def h2_def pr_def[symmetric] PR set_parent_def)
  qed
  have csz: "ctx_size cin (nq - 1) = ctx_size cin nq - 1" "ctx_size cin nq \<ge> 1"
    using ctx_size_add[of cin "nq - 1" 1] by (simp_all add: nq_def)
  have "ctx_at h a (size l + ctx_size cin (nq - 1) + 1) (- 1) c s"
    by (rule ctx_at_resize[OF ca]) (use csz in simp)
  then have cHp: "ctx_at H p (size l + ctx_size cin (nq - 1) + 1) (- 1) c s"
    by (rule ctx_at_relink[OF _ F(1) n(5,3,4) Hpar])
  have cH: "ctx_at H q (size ?Tq) (- 1) ?C s"
    unfolding ctx_at_append
    using sgH cHp tHl Hp G(1) F(3) csz
    by (simp add: nq_def size_plug pr_def[symmetric])
  have sH: "parent_f (H s) = s"
    using Hpar[of s] n(8) by simp
  have rH: "right_f (H s) = 0"
  proof (cases c)
    case Nil
    with n(1) have "left_f (h s) = a" by simp
    with Nil rs Hpar[of s] show ?thesis by (simp add: relink_def)
  next
    case (Cons fr c')
    with ctx_parent_cases[of c s] n(4) have "s \<noteq> ?par" by auto
    with rs Hpar[of s] show ?thesis by simp
  qed
  have io: "inorder (plug ?C ?Tq) = ctx_before c @ inorder l @ inorder ?r @ ctx_after c"
    by (simp add: inorder_plug ctx_before_append ctx_after_append B)
  have ioT: "inorder (plug c ?T) = (ctx_before c @ inorder l) @ a # (inorder ?r @ ctx_after c)"
    by (simp add: inorder_plug del: plug.simps)
  have io': "inorder (plug ?C ?Tq) = (ctx_before c @ inorder l) @ (inorder ?r @ ctx_after c)"
    by (simp only: io append_assoc)
  have st: "set_tree (plug ?C ?Tq) \<subseteq> set_tree (plug c ?T)"
    using arg_cong[OF io', of set] arg_cong[OF ioT, of set]
    by (simp only: set_inorder set_append list.set) blast
  from D(1) have "distinct ((ctx_before c @ inorder l) @ (inorder ?r @ ctx_after c))"
    unfolding ioT by (simp only: distinct_append distinct.simps set_append list.set) blast
  then have D1: "distinct (inorder (plug ?C ?Tq))" "s \<notin> set_tree (plug ?C ?Tq)"
    using st D(2) by (simp_all only: io') blast
  have oH': "H x = h x" if "x \<notin> set_tree (plug c ?T) \<and> x \<noteq> s" for x
  proof (rule oH)
    from that plin pf(3) prc p2c show "x \<noteq> a" "x \<noteq> p" "x \<noteq> q" "x \<noteq> ?par" "x \<noteq> pl" "x \<noteq> pr"
      "p2 = 0 \<or> x \<noteq> p2"
      by (auto simp: set_tree_plug sr simp del: plug.simps)
  qed
  from balance_then_above[OF n(7) sH t1 cH D1, of "balance_left H q"]
  obtain h' t' where r: "balance_left H q \<bind> (\<lambda>(h2, p2). balance_above h2 p2 (- 1)) = Some h'"
    "tree_at h' (left_f (h' s)) s t'" "inorder t' = inorder (plug ?C ?Tq)"
    "parent_f (h' s) = s" "right_f (h' s) = right_f (H s)"
    and o': "\<And>x. x \<notin> set_tree (plug ?C ?Tq) \<and> x \<noteq> s \<Longrightarrow> h' x = H x"
    and v': "\<And>x. value_f (h' x) = value_f (H x)"
    by blast
  have "wf_tree h' s t'"
    using r(2,3,4,5) rH D1 n(7) unfolding wf_tree_def
    by (simp add: set_inorder[symmetric] del: set_inorder plug.simps)
  moreover have "\<forall>x. x \<notin> set_tree (plug c ?T) \<and> x \<noteq> s \<longrightarrow> h' x = h x"
  proof (intro allI impI)
    fix x assume x: "x \<notin> set_tree (plug c ?T) \<and> x \<noteq> s"
    with st have "x \<notin> set_tree (plug ?C ?Tq) \<and> x \<noteq> s" by auto
    from o'[OF this] oH'[OF x] show "h' x = h x" by simp
  qed
  ultimately show ?thesis
    using e r(1,3) v' vH io by (intro exI[of _ h'] exI[of _ t']) (simp del: plug.simps)
qed

lemma erase_self_correct:
  assumes W: "wf_tree h s t" and P: "inorder t = xs @ a # ys"
  shows "\<exists>h' t'. erase_self h a = Some h' \<and> wf_tree h' s t' \<and> inorder t' = xs @ ys \<and>
     (\<forall>x. value_f (h' x) = value_f (h x)) \<and>
     (\<forall>x. x \<notin> set_tree t \<and> x \<noteq> s \<longrightarrow> h' x = h x)"
proof -
  from P have P': "inorder t @ [s] = xs @ a # (ys @ [s])" by simp
  from wf_tree_pos_cases[OF W P']
  obtain c l r where t: "t = plug c (Node l a r)" and xs: "xs = ctx_before c @ inorder l"
    and ys: "ys = inorder r @ ctx_after c"
    by auto
  show ?thesis
  proof (cases "l = Leaf \<or> r = Leaf")
    case True
    from erase_one_child[OF W[unfolded t] True] show ?thesis
      unfolding t xs ys by simp
  next
    case False
    then have L: "l \<noteq> Leaf" and R: "r \<noteq> Leaf" by simp_all
    from leftmost_plug[OF R] obtain cin0 r2 p where r: "r = plug cin0 (Node Leaf p r2)"
      and B: "ctx_before cin0 = []"
      by blast
    show ?thesis
    proof (cases cin0)
      case Nil
      with r have r': "r = Node Leaf p r2" by simp
      from erase_two_children_near[OF W[unfolded t r'] L] show ?thesis
        unfolding t xs ys r' by simp
    next
      case (Cons fr cin)
      with B obtain q rq where fr: "fr = InLeft q rq" and B': "ctx_before cin = []"
        by (cases fr) auto
      from r Cons fr have r': "r = plug (InLeft q rq # cin) (Node Leaf p r2)" by simp
      from erase_two_children_far[OF W[unfolded t r'] L B'] show ?thesis
        unfolding t xs ys r' by (simp del: plug.simps)
    qed
  qed
qed

lemma tree_size_wf: "wf_tree h s t \<Longrightarrow> tree_size h s = size t"
  by (cases t) (auto simp: wf_tree_def tree_size_def tree_empty_def)

section \<open>The claims\<close>

lemma wf_store3: "wf_tree store3 1 tree3"
  by (simp add: wf_tree_def store3_def tree3_def)

lemma values_of_append [simp]: "values_of h (xs @ ys) = values_of h xs @ values_of h ys"
  by (simp add: values_of_def)

lemma values_of_Cons [simp]: "values_of h (x # xs) = value_f (h x) # values_of h xs"
  by (simp add: values_of_def)

lemma values_of_Nil [simp]: "values_of h [] = []"
  by (simp add: values_of_def)

lemma values_of_cong: "(\<And>x. x \<in> set xs \<Longrightarrow> value_f (h' x) = value_f (h x)) \<Longrightarrow> values_of h' xs = values_of h xs"
  by (simp add: values_of_def)

text \<open>C3. \<open>insert(pos, v)\<close> on a tree with inorder sequence \<open>inorder t\<close>, at a position
  \<open>pos\<close> that is an element or \<open>end()\<close> (the sentinel \<open>s\<close>), with \<open>r\<close> the address of the
  new node: the call returns \<open>r\<close>, the new sequence is the old one with \<open>r\<close> placed
  immediately before \<open>pos\<close> (at the end when \<open>pos\<close> is \<open>end()\<close>), \<open>r\<close> holds \<open>v\<close>, every old
  node keeps its value, and \<open>size()\<close> grows by one.\<close>

theorem C3_insert:
  assumes "wf_tree h s t" and "inorder t @ [s] = xs @ pos # ys"
    and "r \<noteq> 0" "r \<noteq> s" "r \<notin> set_tree t"
  shows "\<exists>h' t'. tree_insert h pos v r = Some (h', r) \<and> wf_tree h' s t' \<and>
     inorder t' = take (length xs) (inorder t) @ r # drop (length xs) (inorder t) \<and>
     value_f (h' r) = v \<and> (\<forall>x \<in> set_tree t. value_f (h' x) = value_f (h x)) \<and>
     values_of h' (inorder t') =
       take (length xs) (values_of h (inorder t)) @ v # drop (length xs) (values_of h (inorder t)) \<and>
     tree_size h' s = tree_size h s + 1"
proof -
  from insert_before_self_correct[OF assms, of v]
  obtain h' t' where r: "insert_before_self h pos v r = Some (h', r)" "wf_tree h' s t'"
    "inorder t' @ [s] = xs @ r # pos # ys" "value_f (h' r) = v"
    and v: "\<And>x. x \<noteq> r \<Longrightarrow> value_f (h' x) = value_f (h x)"
    by blast
  have b: "inorder t = xs @ butlast (pos # ys)"
    using arg_cong[OF assms(2), of butlast] by (simp add: butlast_append)
  have b': "inorder t' = xs @ r # butlast (pos # ys)"
    using arg_cong[OF r(3), of butlast] by (simp add: butlast_append)
  have io: "inorder t' = take (length xs) (inorder t) @ r # drop (length xs) (inorder t)"
    by (simp add: b b')
  have old: "\<forall>x \<in> set_tree t. value_f (h' x) = value_f (h x)"
  proof
    fix x assume "x \<in> set_tree t"
    with assms(5) have "x \<noteq> r" by auto
    then show "value_f (h' x) = value_f (h x)" by (rule v)
  qed
  have vs: "values_of h' (inorder t) = values_of h (inorder t)"
    by (rule values_of_cong) (use old in simp)
  have "values_of h' (inorder t') =
      take (length xs) (values_of h' (inorder t)) @ v # drop (length xs) (values_of h' (inorder t))"
    unfolding io by (simp add: values_of_def r(4) take_map drop_map)
  then have vals: "values_of h' (inorder t') =
      take (length xs) (values_of h (inorder t)) @ v # drop (length xs) (values_of h (inorder t))"
    by (simp only: vs)
  have "size t' = size t + 1"
    using arg_cong[OF io, of length] by (simp add: b length_inorder[symmetric] del: length_inorder)
  then have "tree_size h' s = tree_size h s + 1"
    by (simp add: tree_size_wf[OF r(2)] tree_size_wf[OF assms(1)])
  with r(1,2,4) io old vals show ?thesis
    by (intro exI[of _ h'] exI[of _ t']) (simp add: tree_insert_def)
qed

theorem C3_insert_witness:
  "wf_tree store3 1 tree3 \<and> inorder tree3 @ [1] = [2] @ 3 # [4, 1] \<and>
   (\<exists>h' t'. tree_insert store3 3 15 5 = Some (h', 5) \<and> wf_tree h' 1 t' \<and>
      inorder t' = [2, 5, 3, 4] \<and> values_of h' (inorder t') = [10, 15, 20, 30] \<and>
      tree_size h' 1 = 4)"
proof -
  have a: "inorder tree3 @ [1] = [2] @ 3 # [4, 1]" "(5::nat) \<noteq> 0" "(5::nat) \<noteq> 1"
    "5 \<notin> set_tree tree3"
    by (simp_all add: tree3_def)
  have sz: "tree_size store3 1 = 3"
    by (simp add: tree_size_def tree_empty_def store3_def)
  have vs: "values_of store3 (inorder tree3) = [10, 20, 30]"
    by (simp add: tree3_def store3_def)
  from C3_insert[OF wf_store3 a, of 15]
  obtain h' t' where r: "tree_insert store3 3 15 5 = Some (h', 5)" "wf_tree h' 1 t'"
    "inorder t' = take (length [2::nat]) (inorder tree3) @ 5 # drop (length [2::nat]) (inorder tree3)"
    "values_of h' (inorder t') = take (length [2::nat]) (values_of store3 (inorder tree3)) @
       15 # drop (length [2::nat]) (values_of store3 (inorder tree3))"
    "tree_size h' 1 = tree_size store3 1 + 1"
    by blast
  from r(3) have "inorder t' = [2, 5, 3, 4]"
    by (simp add: tree3_def)
  moreover from r(4) have "values_of h' (inorder t') = [10, 15, 20, 30]"
    by (simp only: vs) simp
  moreover from r(5) sz have "tree_size h' 1 = 4"
    by simp
  ultimately show ?thesis
    using wf_store3 a(1) r(1,2) by blast
qed

text \<open>C4. \<open>erase(pos)\<close> at an element \<open>pos\<close>: the new sequence is the old one without
  \<open>pos\<close>, every remaining node keeps its value, \<open>size()\<close> shrinks by one, and the call
  returns the former inorder successor of \<open>pos\<close>, which is \<open>end()\<close> (the sentinel) when
  \<open>pos\<close> was the last element.\<close>

theorem C4_erase:
  assumes "wf_tree h s t" and "inorder t = xs @ pos # ys"
  shows "\<exists>h' t'. tree_erase h pos = Some (h', hd (ys @ [s])) \<and> wf_tree h' s t' \<and>
     inorder t' = xs @ ys \<and> (\<forall>x. value_f (h' x) = value_f (h x)) \<and>
     values_of h' (inorder t') = values_of h xs @ values_of h ys \<and>
     tree_size h' s + 1 = tree_size h s"
proof -
  from erase_self_correct[OF assms]
  obtain h' t' where r: "erase_self h pos = Some h'" "wf_tree h' s t'" "inorder t' = xs @ ys"
    and v: "\<And>x. value_f (h' x) = value_f (h x)"
    by blast
  have "inorder t @ [s] = xs @ pos # hd (ys @ [s]) # tl (ys @ [s])"
    by (simp add: assms(2))
  from inorder_successor_correct[OF assms(1) this]
  have su: "inorder_successor h pos = Some (hd (ys @ [s]))" .
  have "values_of h' (xs @ ys) = values_of h (xs @ ys)"
    by (rule values_of_cong) (rule v)
  then have vals: "values_of h' (inorder t') = values_of h xs @ values_of h ys"
    by (simp add: r(3))
  have "size t' + 1 = size t"
    using arg_cong[OF r(3), of length] arg_cong[OF assms(2), of length]
    by (simp add: length_inorder[symmetric] del: length_inorder)
  then have "tree_size h' s + 1 = tree_size h s"
    by (simp add: tree_size_wf[OF r(2)] tree_size_wf[OF assms(1)])
  with r su v vals show ?thesis
    by (intro exI[of _ h'] exI[of _ t']) (simp add: tree_erase_def)
qed

theorem C4_erase_witness:
  "wf_tree store3 1 tree3 \<and> inorder tree3 = [2] @ 3 # [4] \<and>
   (\<exists>h' t'. tree_erase store3 3 = Some (h', 4) \<and> wf_tree h' 1 t' \<and> inorder t' = [2, 4] \<and>
      values_of h' (inorder t') = [10, 30] \<and> tree_size h' 1 = 2)"
proof -
  have a: "inorder tree3 = [2] @ 3 # [4]"
    by (simp add: tree3_def)
  have sz: "tree_size store3 1 = 3"
    by (simp add: tree_size_def tree_empty_def store3_def)
  from C4_erase[OF wf_store3 a]
  obtain h' t' where r: "tree_erase store3 3 = Some (h', hd ([4] @ [1]))" "wf_tree h' 1 t'"
    "inorder t' = [2] @ [4]"
    "values_of h' (inorder t') = values_of store3 [2] @ values_of store3 [4]"
    "tree_size h' 1 + 1 = tree_size store3 1"
    by blast
  from r(1) have "tree_erase store3 3 = Some (h', 4)"
    by simp
  moreover from r(3) have "inorder t' = [2, 4]"
    by simp
  moreover from r(4) have "values_of h' (inorder t') = [10, 30]"
    by (simp add: store3_def)
  moreover from r(5) sz have "tree_size h' 1 = 2"
    by simp
  ultimately show ?thesis
    using wf_store3 a r(2) by blast
qed

end
